theory Spec2Isabelle
  imports Complex_Main "HOL-Library.Signed_Division" "HOL-Library.Word"
begin

section \<open>Data model\<close>

text \<open>
  A \<open>float*\<close> argument is modelled as the memory seen from that pointer: element \<open>p\<close> of
  the function is \<open>ptr[p]\<close>. The three matrix pointers of every entry point are
  \<open>__restrict\<close> and \<open>A\<close>, \<open>B\<close> are \<open>const\<close>, so they are three separate memories and
  only \<open>C\<close> is returned updated. \<open>/\<close> and \<open>%\<close> on \<open>int\<close> truncate towards zero
  (\<open>sdiv\<close>, \<open>smod\<close>).
\<close>

type_synonym 'a mem = "int \<Rightarrow> 'a"

text \<open>
  C \<open>int\<close> has 32 bits and its overflow is undefined behaviour, not wrap-around. The values
  are modelled as mathematical integers, and the model says where an overflow decides how a
  call ends: in the depth counter \<open>kk + KB\<close> of the tiled loops, which a non-positive \<open>KB\<close>
  drives out of range, and in the panel sizes \<open>MB * KB\<close> and \<open>KB * NB\<close>. Index
  arithmetic is described for the executions without overflow.
\<close>

definition int32 :: "int \<Rightarrow> bool" where
  "int32 x \<longleftrightarrow> - 2147483648 \<le> x \<and> x \<le> 2147483647"

text \<open>Pointer arithmetic \<open>P + n\<close>: element \<open>p\<close> of the result is \<open>P[n + p]\<close>.\<close>

definition ptr_add :: "'a mem \<Rightarrow> int \<Rightarrow> 'a mem" where
  "ptr_add P n = (\<lambda>p. P (n + p))"

text \<open>
  A callee that writes through the pointer \<open>P + n\<close>: it runs on the view \<open>P + n\<close>, and what it
  wrote is read back as memory of \<open>P\<close>.
\<close>

definition call_at :: "int \<Rightarrow> ('a mem \<Rightarrow> 'a mem) \<Rightarrow> 'a mem \<Rightarrow> 'a mem" where
  "call_at n f P = ptr_add (f (ptr_add P n)) (- n)"

text \<open>
  The element type is \<open>float\<close>. Its arithmetic is kept abstract: \<open>fmul\<close> and \<open>fadd\<close> are the
  rounded product and sum of the scalar statement \<open>c += a * b\<close>, and \<open>fmadd a b c\<close> is one lane
  of the fused \<open>_mm256_fmadd_ps(a, b, c)\<close>. Nothing is assumed about them, so every theorem
  holds for IEEE binary32 as for exact arithmetic.
\<close>

record 'a fpu =
  fmul :: "'a \<Rightarrow> 'a \<Rightarrow> 'a"
  fadd :: "'a \<Rightarrow> 'a \<Rightarrow> 'a"
  fmadd :: "'a \<Rightarrow> 'a \<Rightarrow> 'a \<Rightarrow> 'a"

text \<open>\<open>struct Block { int MB = 256, NB = 256, KB = 256; }\<close> of gemm.hpp.\<close>

record Block =
  MB :: int
  NB :: int
  KB :: int

definition Block_default :: Block where
  "Block_default = \<lparr>MB = 256, NB = 256, KB = 256\<rparr>"

text \<open>
  The only exception type the sources throw is \<open>std::runtime_error\<close>, with these messages.
\<close>

datatype error = Runtime_Error string

definition unknown_implementation :: "string \<Rightarrow> error" where
  "unknown_implementation impl = Runtime_Error (''Unknown implementation: '' @ impl)"

definition backend_unavailable :: error where
  "backend_unavailable =
     Runtime_Error ''OpenBLAS not available - install via vcpkg install openblas:x64-windows''"

definition allocation_failure :: error where
  "allocation_failure = Runtime_Error ''Failed to allocate aligned panel memory''"

text \<open>
  What a call does to the output matrix: it returns, leaving \<open>C\<close> in a new state; it throws
  to its caller, with \<open>C\<close> as it is at the throw; the process is ended by
  \<open>std::terminate\<close> (an exception that leaves an OpenMP parallel region); its behaviour is
  undefined (an integer division by zero, a signed overflow, an aligned vector load from a
  misaligned address); or it never returns.
\<close>

datatype 'a outcome =
    Returned "'a mem"
  | Thrown error "'a mem"
  | Terminated
  | Undefined
  | Diverges

section \<open>Loops\<close>

text \<open>\<open>for (int i = lo; i < hi; ++i) body\<close>.\<close>

definition for_range :: "int \<Rightarrow> int \<Rightarrow> (int \<Rightarrow> 's \<Rightarrow> 's) \<Rightarrow> 's \<Rightarrow> 's" where
  "for_range lo hi body s = fold body [lo..hi - 1] s"

text \<open>
  \<open>for (; j < stop; j += step) body\<close> with a literal step (8 or 4 in the sources); the final
  value of the loop variable is returned too, since the tail loops start from it. The test
  \<open>0 < step\<close> only makes the definition total.
\<close>

function for_step :: "int \<Rightarrow> int \<Rightarrow> (int \<Rightarrow> 's \<Rightarrow> 's) \<Rightarrow> int \<Rightarrow> 's \<Rightarrow> int \<times> 's" where
  "for_step step stop body j s =
     (if 0 < step \<and> j < stop then for_step step stop body (j + step) (body j s) else (j, s))"
  by pat_completeness auto
termination
  by (relation "measure (\<lambda>(step, stop, body, j, s). nat (stop - j))") auto

declare for_step.simps [simp del]

text \<open>
  \<open>for (int kk = 0; kk < K; kk += KB) { const int kMax = std::min(kk + KB, K); ... }\<close>: the
  step is the caller's \<open>KB\<close>. Every round computes \<open>kk + KB\<close> first, as an \<open>int\<close>; when that
  sum is out of range the behaviour is undefined from there on (\<open>Signed_Overflow\<close>). With
  \<open>KB = 0\<close> the counter stays where it is and the loop never leaves: \<open>None\<close> is a loop that
  does not return. With \<open>KB < 0\<close> the counter goes down until the sum overflows.
\<close>

datatype 's ended = Completed 's | Signed_Overflow

partial_function (option) kk_loop ::
  "int \<Rightarrow> int \<Rightarrow> (int \<Rightarrow> 's \<Rightarrow> 's) \<Rightarrow> int \<Rightarrow> 's \<Rightarrow> 's ended option" where
  "kk_loop K kb body kk s =
     (if kk < K
      then if int32 (kk + kb) then kk_loop K kb body (kk + kb) (body kk s)
           else Some Signed_Overflow
      else Some (Completed s))"

text \<open>
  \<open>#pragma omp for schedule(static)\<close> over \<open>t = 0 .. nTiles - 1\<close>, run by one worker in
  increasing order; a tile that never finishes keeps the call from returning, and after an
  overflow in one tile nothing is known of the call.
\<close>

definition tiles_loop ::
  "int \<Rightarrow> (int \<Rightarrow> 's \<Rightarrow> 's ended option) \<Rightarrow> 's \<Rightarrow> 's ended option" where
  "tiles_loop nTiles body s =
     fold (\<lambda>t r. case r of Some (Completed s) \<Rightarrow> body t s | _ \<Rightarrow> r)
       [0..nTiles - 1] (Some (Completed s))"

section \<open>AVX2 intrinsics\<close>

text \<open>A \<open>__m256\<close> holds eight floats, lane 0 first.\<close>

type_synonym 'a m256 = "'a list"

definition mm256_set1_ps :: "'a \<Rightarrow> 'a m256" where
  "mm256_set1_ps a = replicate 8 a"

definition mm256_broadcast_ss :: "'a \<Rightarrow> 'a m256" where
  "mm256_broadcast_ss a = replicate 8 a"

definition mm256_loadu_ps :: "'a mem \<Rightarrow> int \<Rightarrow> 'a m256" where
  "mm256_loadu_ps P p = map (\<lambda>l. P (p + int l)) [0..<8]"

text \<open>
  \<open>_mm256_load_ps\<close> needs a 32-byte aligned address. \<open>addr\<close> is the byte address the
  pointer holds, a float is 4 bytes, and \<open>None\<close> is the fault of a misaligned load.
\<close>

definition mm256_load_ps :: "int \<Rightarrow> 'a mem \<Rightarrow> int \<Rightarrow> 'a m256 option" where
  "mm256_load_ps addr P p =
     (if (addr + 4 * p) mod 32 = 0 then Some (mm256_loadu_ps P p) else None)"

definition mm256_storeu_ps :: "'a mem \<Rightarrow> int \<Rightarrow> 'a m256 \<Rightarrow> 'a mem" where
  "mm256_storeu_ps P p v = (\<lambda>q. if p \<le> q \<and> q < p + 8 then v ! nat (q - p) else P q)"

definition mm256_fmadd_ps :: "'a fpu \<Rightarrow> 'a m256 \<Rightarrow> 'a m256 \<Rightarrow> 'a m256 \<Rightarrow> 'a m256" where
  "mm256_fmadd_ps fl a b c = map (\<lambda>l. fmadd fl (a ! l) (b ! l) (c ! l)) [0..<8]"

section \<open>gemm\_naive.cpp\<close>

definition gemm_naive ::
  "'a fpu \<Rightarrow> int \<Rightarrow> int \<Rightarrow> int \<Rightarrow> 'a mem \<Rightarrow> 'a mem \<Rightarrow> 'a mem \<Rightarrow> int \<Rightarrow> int \<Rightarrow> int \<Rightarrow> 'a mem" where
  "gemm_naive fl M N K A B C lda ldb ldc =
     for_range 0 M (\<lambda>i.
       for_range 0 K (\<lambda>k C.
         let a = A (i * lda + k) in
         for_range 0 N (\<lambda>j C.
           C(i * ldc + j := fadd fl (C (i * ldc + j)) (fmul fl a (B (k * ldb + j))))) C)) C"

section \<open>The tile of a flattened index\<close>

text \<open>
  The three tiled implementations compute the same tile from \<open>t\<close>:
  \<open>ti = t / nJ\<close>, \<open>tj = t % nJ\<close>, \<open>ii = ti * MB\<close>, \<open>iMax = min(ii + MB, M)\<close>,
  \<open>jj = tj * NB\<close>, \<open>jMax = min(jj + NB, N)\<close>.
\<close>

definition tile_count :: "int \<Rightarrow> int \<Rightarrow> int" where
  "tile_count M mb = (M + mb - 1) sdiv mb"

definition tile_ii :: "int \<Rightarrow> int \<Rightarrow> int \<Rightarrow> int" where
  "tile_ii mb nJ t = (t sdiv nJ) * mb"

definition tile_iMax :: "int \<Rightarrow> int \<Rightarrow> int \<Rightarrow> int \<Rightarrow> int" where
  "tile_iMax M mb nJ t = min (tile_ii mb nJ t + mb) M"

definition tile_jj :: "int \<Rightarrow> int \<Rightarrow> int \<Rightarrow> int" where
  "tile_jj nb nJ t = (t smod nJ) * nb"

definition tile_jMax :: "int \<Rightarrow> int \<Rightarrow> int \<Rightarrow> int \<Rightarrow> int" where
  "tile_jMax N nb nJ t = min (tile_jj nb nJ t + nb) N"

section \<open>gemm\_blocked.cpp\<close>

text \<open>
  The row update shared by \<open>gemm_blocked\<close> (lines 33 to 45) and \<open>micro_kernel_packed\<close>
  (lines 70 to 83): eight columns at a time with a fused multiply-add while
  \<open>j <= jMax - 8\<close>, then the scalar tail. \<open>brow\<close> and \<open>crow\<close> are the offsets of the rows
  of \<open>B\<close> and \<open>C\<close>.
\<close>

definition fma_row ::
  "'a fpu \<Rightarrow> 'a \<Rightarrow> 'a mem \<Rightarrow> int \<Rightarrow> int \<Rightarrow> int \<Rightarrow> int \<Rightarrow> 'a mem \<Rightarrow> 'a mem" where
  "fma_row fl a B brow crow jj jMax C =
     (let a8 = mm256_set1_ps a;
          (j, C1) = for_step 8 (jMax - 8 + 1) (\<lambda>j C.
                      let b8 = mm256_loadu_ps B (brow + j);
                          c8 = mm256_loadu_ps C (crow + j);
                          c8' = mm256_fmadd_ps fl a8 b8 c8
                      in mm256_storeu_ps C (crow + j) c8') jj C
      in for_range j jMax (\<lambda>j C.
           C(crow + j := fadd fl (C (crow + j)) (fmul fl a (B (brow + j))))) C1)"

definition blocked_tile ::
  "'a fpu \<Rightarrow> int \<Rightarrow> int \<Rightarrow> int \<Rightarrow> 'a mem \<Rightarrow> 'a mem \<Rightarrow> int \<Rightarrow> int \<Rightarrow> int \<Rightarrow>
   int \<Rightarrow> int \<Rightarrow> int \<Rightarrow> int \<Rightarrow> int \<Rightarrow> 'a mem \<Rightarrow> 'a mem ended option" where
  "blocked_tile fl M N K A B lda ldb ldc mb nb kb nJ t C =
     (let ii = tile_ii mb nJ t; iMax = tile_iMax M mb nJ t;
          jj = tile_jj nb nJ t; jMax = tile_jMax N nb nJ t
      in kk_loop K kb (\<lambda>kk C.
           let kMax = min (kk + kb) K in
           for_range ii iMax (\<lambda>i.
             for_range kk kMax (\<lambda>k C.
               fma_row fl (A (i * lda + k)) B (k * ldb) (i * ldc) jj jMax C)) C) 0 C)"

definition gemm_blocked ::
  "'a fpu \<Rightarrow> int \<Rightarrow> int \<Rightarrow> int \<Rightarrow> 'a mem \<Rightarrow> 'a mem \<Rightarrow> 'a mem \<Rightarrow> int \<Rightarrow> int \<Rightarrow> int \<Rightarrow>
   Block \<Rightarrow> 'a outcome" where
  "gemm_blocked fl M N K A B C lda ldb ldc block_sizes =
     (let mb = MB block_sizes; nb = NB block_sizes; kb = KB block_sizes
      in if mb = 0 \<or> nb = 0 then Undefined
         else
           let nI = tile_count M mb; nJ = tile_count N nb; nTiles = nI * nJ
           in case tiles_loop nTiles (blocked_tile fl M N K A B lda ldb ldc mb nb kb nJ) C of
                None \<Rightarrow> Diverges
              | Some Signed_Overflow \<Rightarrow> Undefined
              | Some (Completed C') \<Rightarrow> Returned C')"

section \<open>gemm\_packed.cpp\<close>

text \<open>
  \<open>posix_memalign\<close> is the environment: for a size in bytes (a 64-bit \<open>size_t\<close>) it
  either fails, or yields a fresh buffer whose contents are whatever they are.
  \<open>alloc_aligned_panel\<close> takes its \<open>size_t elements\<close> from an \<open>int\<close> product.
\<close>

definition alloc_aligned_panel :: "(64 word \<Rightarrow> 'a mem option) \<Rightarrow> int \<Rightarrow> error + 'a mem" where
  "alloc_aligned_panel posix_memalign elements =
     (let bytes = (of_int elements :: 64 word) * 4
      in case posix_memalign bytes of
           None \<Rightarrow> Inl allocation_failure
         | Some ptr \<Rightarrow> Inr ptr)"

definition pack_A_panel :: "int \<Rightarrow> int \<Rightarrow> 'a mem \<Rightarrow> int \<Rightarrow> 'a mem \<Rightarrow> 'a mem" where
  "pack_A_panel mb kb A lda A_packed =
     for_range 0 mb (\<lambda>i.
       for_range 0 kb (\<lambda>k A_packed.
         A_packed(i * kb + k := A (i * lda + k)))) A_packed"

definition pack_B_panel :: "int \<Rightarrow> int \<Rightarrow> 'a mem \<Rightarrow> int \<Rightarrow> 'a mem \<Rightarrow> 'a mem" where
  "pack_B_panel kb nb B ldb B_packed =
     for_range 0 kb (\<lambda>k.
       for_range 0 nb (\<lambda>j B_packed.
         B_packed(k * nb + j := B (k * ldb + j)))) B_packed"

text \<open>\<open>b_row[j]\<close> is \<open>B_packed[k * NB + j]\<close> and \<open>c_row[j]\<close> is \<open>C[i * ldc + j]\<close>.\<close>

definition micro_kernel_packed ::
  "'a fpu \<Rightarrow> int \<Rightarrow> int \<Rightarrow> int \<Rightarrow> 'a mem \<Rightarrow> 'a mem \<Rightarrow> 'a mem \<Rightarrow> int \<Rightarrow> 'a mem" where
  "micro_kernel_packed fl mb nb kb A_packed B_packed C ldc =
     for_range 0 mb (\<lambda>i.
       for_range 0 kb (\<lambda>k C.
         fma_row fl (A_packed (i * kb + k)) B_packed (k * nb) (i * ldc) 0 nb C)) C"

text \<open>The state of a worker: its two panels and the output matrix.\<close>

definition packed_tile ::
  "'a fpu \<Rightarrow> int \<Rightarrow> int \<Rightarrow> int \<Rightarrow> 'a mem \<Rightarrow> 'a mem \<Rightarrow> int \<Rightarrow> int \<Rightarrow> int \<Rightarrow>
   int \<Rightarrow> int \<Rightarrow> int \<Rightarrow> int \<Rightarrow> int \<Rightarrow> 'a mem \<times> 'a mem \<times> 'a mem \<Rightarrow>
   ('a mem \<times> 'a mem \<times> 'a mem) ended option" where
  "packed_tile fl M N K A B lda ldb ldc mb nb kb nJ t w =
     (let ii = tile_ii mb nJ t; iMax = tile_iMax M mb nJ t;
          jj = tile_jj nb nJ t; jMax = tile_jMax N nb nJ t;
          actual_MB = iMax - ii; actual_NB = jMax - jj
      in kk_loop K kb (\<lambda>kk (A_packed, B_packed, C).
           let kMax = min (kk + kb) K;
               actual_KB = kMax - kk;
               A_packed' = pack_A_panel actual_MB actual_KB (ptr_add A (ii * lda + kk)) lda A_packed;
               B_packed' = pack_B_panel actual_KB actual_NB (ptr_add B (kk * ldb + jj)) ldb B_packed;
               C' = call_at (ii * ldc + jj)
                      (\<lambda>Ct. micro_kernel_packed fl actual_MB actual_NB actual_KB
                               A_packed' B_packed' Ct ldc) C
           in (A_packed', B_packed', C')) 0 w)"

text \<open>
  \<open>#pragma omp parallel { ... }\<close>. The sources build with and without OpenMP (\<open>openmp\<close>
  is the build). No handler stands between the throw of \<open>alloc_aligned_panel\<close> and the end
  of the region, so in a build with OpenMP the exception leaves the region and the process
  ends in \<open>std::terminate\<close>; in a build without OpenMP the pragma is ignored and the
  exception reaches the caller.
\<close>

definition omp_parallel :: "bool \<Rightarrow> 'a outcome \<Rightarrow> 'a outcome" where
  "omp_parallel openmp region =
     (case region of
        Thrown e C \<Rightarrow> if openmp then Terminated else Thrown e C
      | _ \<Rightarrow> region)"

text \<open>
  The panels are allocated inside the region, after the tile counts are computed, whatever
  the extents are; their sizes \<open>MB * KB\<close> and \<open>KB * NB\<close> are \<open>int\<close> products, converted to
  \<open>size_t\<close> at the call. \<open>C\<close> has not been touched when an allocation fails.
\<close>

definition gemm_packed ::
  "'a fpu \<Rightarrow> bool \<Rightarrow> (64 word \<Rightarrow> 'a mem option) \<Rightarrow> int \<Rightarrow> int \<Rightarrow> int \<Rightarrow>
   'a mem \<Rightarrow> 'a mem \<Rightarrow> 'a mem \<Rightarrow> int \<Rightarrow> int \<Rightarrow> int \<Rightarrow> Block \<Rightarrow> 'a outcome" where
  "gemm_packed fl openmp posix_memalign M N K A B C lda ldb ldc block_sizes =
     (let mb = MB block_sizes; nb = NB block_sizes; kb = KB block_sizes
      in if mb = 0 \<or> nb = 0 then Undefined
         else
           let nI = tile_count M mb; nJ = tile_count N nb; nTiles = nI * nJ
           in omp_parallel openmp
                (if \<not> int32 (mb * kb) then Undefined
                 else case alloc_aligned_panel posix_memalign (mb * kb) of
                   Inl e \<Rightarrow> Thrown e C
                 | Inr A_packed \<Rightarrow>
                    if \<not> int32 (kb * nb) then Undefined
                    else case alloc_aligned_panel posix_memalign (kb * nb) of
                      Inl e \<Rightarrow> Thrown e C
                    | Inr B_packed \<Rightarrow>
                       (case tiles_loop nTiles (packed_tile fl M N K A B lda ldb ldc mb nb kb nJ)
                               (A_packed, B_packed, C) of
                          None \<Rightarrow> Diverges
                        | Some Signed_Overflow \<Rightarrow> Undefined
                        | Some (Completed (A_packed', B_packed', C')) \<Rightarrow> Returned C')))"

section \<open>microkernels/mk\_avx2.cpp\<close>

text \<open>
  One depth step of the 8x8 kernels: \<open>b\<close> is row \<open>k\<close> of the B panel, and the accumulators
  \<open>c0 .. c7\<close> (the list \<open>acc\<close>, \<open>c0\<close> first) each take \<open>fmadd(broadcast(A[r * KC + k]), b, c_r)\<close>.
  The prefetches are hints and change nothing.
\<close>

definition mk8x8_step :: "'a fpu \<Rightarrow> int \<Rightarrow> 'a mem \<Rightarrow> 'a m256 \<Rightarrow> int \<Rightarrow> 'a m256 list \<Rightarrow> 'a m256 list" where
  "mk8x8_step fl KC A b k acc =
     map (\<lambda>r. mm256_fmadd_ps fl (mm256_broadcast_ss (A (int r * KC + k))) b (acc ! r)) [0..<8]"

definition mk8x8_load_C :: "'a mem \<Rightarrow> int \<Rightarrow> 'a m256 list" where
  "mk8x8_load_C C ldc = map (\<lambda>r. mm256_loadu_ps C (int r * ldc)) [0..<8]"

definition mk8x8_store_C :: "'a mem \<Rightarrow> int \<Rightarrow> 'a m256 list \<Rightarrow> 'a mem" where
  "mk8x8_store_C C ldc acc = fold (\<lambda>r C. mm256_storeu_ps C (int r * ldc) (acc ! r)) [0..<8] C"

definition mk8x8_avx2_strided ::
  "'a fpu \<Rightarrow> int \<Rightarrow> 'a mem \<Rightarrow> 'a mem \<Rightarrow> int \<Rightarrow> 'a mem \<Rightarrow> int \<Rightarrow> 'a mem" where
  "mk8x8_avx2_strided fl KC A B ldb C ldc =
     (let step = (\<lambda>k acc. mk8x8_step fl KC A (mm256_loadu_ps B (k * ldb)) k acc);
          acc0 = mk8x8_load_C C ldc;
          (k, acc1) = for_step 4 (KC - 4 + 1) (\<lambda>k acc.
                        step (k + 3) (step (k + 2) (step (k + 1) (step (k + 0) acc)))) 0 acc0;
          acc2 = for_range k KC step acc1
      in mk8x8_store_C C ldc acc2)"

text \<open>
  \<open>mk8x8_avx2\<close> reads the B panel with the aligned \<open>_mm256_load_ps(B + k * 8)\<close>; \<open>B_addr\<close>
  is the byte address in \<open>B\<close>. A faulting load ends the kernel: the accumulators are \<open>None\<close>
  from then on and nothing is stored.
\<close>

definition mk8x8_avx2 ::
  "'a fpu \<Rightarrow> int \<Rightarrow> 'a mem \<Rightarrow> int \<Rightarrow> 'a mem \<Rightarrow> 'a mem \<Rightarrow> int \<Rightarrow> 'a outcome" where
  "mk8x8_avx2 fl KC A B_addr B C ldc =
     (let step = (\<lambda>k acc. case acc of None \<Rightarrow> None
                    | Some acc \<Rightarrow>
                       (case mm256_load_ps B_addr B (k * 8) of None \<Rightarrow> None
                        | Some b \<Rightarrow> Some (mk8x8_step fl KC A b k acc)));
          acc0 = Some (mk8x8_load_C C ldc);
          (k, acc1) = for_step 4 (KC - 4 + 1) (\<lambda>k acc.
                        step (k + 3) (step (k + 2) (step (k + 1) (step (k + 0) acc)))) 0 acc0;
          acc2 = for_range k KC step acc1
      in case acc2 of None \<Rightarrow> Undefined
         | Some acc \<Rightarrow> Returned (mk8x8_store_C C ldc acc))"

definition mk_ref ::
  "'a fpu \<Rightarrow> int \<Rightarrow> int \<Rightarrow> int \<Rightarrow> 'a mem \<Rightarrow> 'a mem \<Rightarrow> 'a mem \<Rightarrow> int \<Rightarrow> 'a mem" where
  "mk_ref fl MR NR KC A_p B_p C ldc =
     for_range 0 MR (\<lambda>i.
       for_range 0 KC (\<lambda>k C.
         let a = A_p (i * KC + k) in
         for_range 0 NR (\<lambda>j C.
           C(i * ldc + j := fadd fl (C (i * ldc + j)) (fmul fl a (B_p (k * NR + j))))) C)) C"

definition mk_ref_strided ::
  "'a fpu \<Rightarrow> int \<Rightarrow> int \<Rightarrow> int \<Rightarrow> 'a mem \<Rightarrow> 'a mem \<Rightarrow> int \<Rightarrow> 'a mem \<Rightarrow> int \<Rightarrow> 'a mem" where
  "mk_ref_strided fl MR NR KC A_p B_p ldb C ldc =
     for_range 0 MR (\<lambda>i.
       for_range 0 KC (\<lambda>k C.
         let a = A_p (i * KC + k) in
         for_range 0 NR (\<lambda>j C.
           C(i * ldc + j := fadd fl (C (i * ldc + j)) (fmul fl a (B_p (k * ldb + j))))) C)) C"

section \<open>gemm\_mk\_avx2.cpp\<close>

definition pack_A_panel_mk :: "int \<Rightarrow> int \<Rightarrow> 'a mem \<Rightarrow> int \<Rightarrow> 'a mem \<Rightarrow> 'a mem" where
  "pack_A_panel_mk mb kb A lda A_packed =
     for_range 0 mb (\<lambda>i.
       for_range 0 kb (\<lambda>k A_packed.
         A_packed(i * kb + k := A (i * lda + k)))) A_packed"

definition pack_B_panel_mk :: "int \<Rightarrow> int \<Rightarrow> 'a mem \<Rightarrow> int \<Rightarrow> 'a mem \<Rightarrow> 'a mem" where
  "pack_B_panel_mk kb nb B ldb B_packed =
     for_range 0 kb (\<lambda>k.
       for_range 0 nb (\<lambda>j B_packed.
         B_packed(k * nb + j := B (k * ldb + j)))) B_packed"

text \<open>
  The body of the \<open>j0\<close> loop (lines 98 to 117): the choice between the two kernels for the
  sub-block at \<open>(i0, j0)\<close> of the tile at \<open>(ii, jj)\<close>.
\<close>

definition mk_block ::
  "'a fpu \<Rightarrow> int \<Rightarrow> int \<Rightarrow> int \<Rightarrow> 'a mem \<Rightarrow> 'a mem \<Rightarrow> int \<Rightarrow> int \<Rightarrow> int \<Rightarrow> int \<Rightarrow> int \<Rightarrow>
   'a mem \<Rightarrow> 'a mem" where
  "mk_block fl actual_MB actual_NB actual_KB A_packed B_packed ldc ii jj i0 j0 C =
     (let mr = min 8 (actual_MB - i0);
          nr = min 8 (actual_NB - j0)
      in if mr = 8 \<and> nr = 8
         then
           let Ablk = ptr_add A_packed (i0 * actual_KB);
               Bblk = ptr_add B_packed j0
           in call_at ((ii + i0) * ldc + (jj + j0))
                (\<lambda>Cblk. mk8x8_avx2_strided fl actual_KB Ablk Bblk actual_NB Cblk ldc) C
         else
           let Ablk = ptr_add A_packed (i0 * actual_KB);
               Bblk = ptr_add B_packed j0
           in call_at ((ii + i0) * ldc + (jj + j0))
                (\<lambda>Cblk. mk_ref_strided fl mr nr actual_KB Ablk Bblk actual_NB Cblk ldc) C)"

definition mk_tile ::
  "'a fpu \<Rightarrow> int \<Rightarrow> int \<Rightarrow> int \<Rightarrow> 'a mem \<Rightarrow> 'a mem \<Rightarrow> int \<Rightarrow> int \<Rightarrow> int \<Rightarrow>
   int \<Rightarrow> int \<Rightarrow> int \<Rightarrow> int \<Rightarrow> int \<Rightarrow> 'a mem \<times> 'a mem \<times> 'a mem \<Rightarrow>
   ('a mem \<times> 'a mem \<times> 'a mem) ended option" where
  "mk_tile fl M N K A B lda ldb ldc mb nb kb nJ t w =
     (let ii = tile_ii mb nJ t; iMax = tile_iMax M mb nJ t;
          jj = tile_jj nb nJ t; jMax = tile_jMax N nb nJ t;
          actual_MB = iMax - ii; actual_NB = jMax - jj
      in kk_loop K kb (\<lambda>kk (A_packed, B_packed, C).
           let kMax = min (kk + kb) K;
               actual_KB = kMax - kk;
               A_packed' = pack_A_panel_mk actual_MB actual_KB (ptr_add A (ii * lda + kk)) lda A_packed;
               B_packed' = pack_B_panel_mk actual_KB actual_NB (ptr_add B (kk * ldb + jj)) ldb B_packed;
               C' = snd (for_step 8 actual_MB (\<lambda>i0 C.
                      snd (for_step 8 actual_NB (\<lambda>j0 C.
                        mk_block fl actual_MB actual_NB actual_KB A_packed' B_packed'
                          ldc ii jj i0 j0 C) 0 C)) 0 C)
           in (A_packed', B_packed', C')) 0 w)"

definition gemm_mk_avx2 ::
  "'a fpu \<Rightarrow> bool \<Rightarrow> (64 word \<Rightarrow> 'a mem option) \<Rightarrow> int \<Rightarrow> int \<Rightarrow> int \<Rightarrow>
   'a mem \<Rightarrow> 'a mem \<Rightarrow> 'a mem \<Rightarrow> int \<Rightarrow> int \<Rightarrow> int \<Rightarrow> Block \<Rightarrow> 'a outcome" where
  "gemm_mk_avx2 fl openmp posix_memalign M N K A B C lda ldb ldc block_sizes =
     (let mb = MB block_sizes; nb = NB block_sizes; kb = KB block_sizes
      in if mb = 0 \<or> nb = 0 then Undefined
         else
           let nI = tile_count M mb; nJ = tile_count N nb; nTiles = nI * nJ
           in omp_parallel openmp
                (if \<not> int32 (mb * kb) then Undefined
                 else case alloc_aligned_panel posix_memalign (mb * kb) of
                   Inl e \<Rightarrow> Thrown e C
                 | Inr A_packed \<Rightarrow>
                    if \<not> int32 (kb * nb) then Undefined
                    else case alloc_aligned_panel posix_memalign (kb * nb) of
                      Inl e \<Rightarrow> Thrown e C
                    | Inr B_packed \<Rightarrow>
                       (case tiles_loop nTiles (mk_tile fl M N K A B lda ldb ldc mb nb kb nJ)
                               (A_packed, B_packed, C) of
                          None \<Rightarrow> Diverges
                        | Some Signed_Overflow \<Rightarrow> Undefined
                        | Some (Completed (A_packed', B_packed', C')) \<Rightarrow> Returned C')))"

section \<open>baselines/openblas.cpp and gemm\_dispatcher.cpp\<close>

definition gemm_openblas ::
  "int \<Rightarrow> int \<Rightarrow> int \<Rightarrow> 'a mem \<Rightarrow> 'a mem \<Rightarrow> 'a mem \<Rightarrow> int \<Rightarrow> int \<Rightarrow> int \<Rightarrow> Block \<Rightarrow> 'a outcome" where
  "gemm_openblas M N K A B C lda ldb ldc block_sizes = Thrown backend_unavailable C"

definition run_gemm ::
  "'a fpu \<Rightarrow> bool \<Rightarrow> (64 word \<Rightarrow> 'a mem option) \<Rightarrow> string \<Rightarrow> int \<Rightarrow> int \<Rightarrow> int \<Rightarrow>
   'a mem \<Rightarrow> 'a mem \<Rightarrow> 'a mem \<Rightarrow> int \<Rightarrow> int \<Rightarrow> int \<Rightarrow> Block \<Rightarrow> 'a outcome" where
  "run_gemm fl openmp posix_memalign impl M N K A B C lda ldb ldc block_sizes =
     (if impl = ''naive'' then Returned (gemm_naive fl M N K A B C lda ldb ldc)
      else if impl = ''blocked'' then gemm_blocked fl M N K A B C lda ldb ldc block_sizes
      else if impl = ''packed'' then
        gemm_packed fl openmp posix_memalign M N K A B C lda ldb ldc block_sizes
      else if impl = ''mk_avx2'' then
        gemm_mk_avx2 fl openmp posix_memalign M N K A B C lda ldb ldc block_sizes
      else if impl = ''openblas'' then gemm_openblas M N K A B C lda ldb ldc block_sizes
      else Thrown (unknown_implementation impl) C)"

section \<open>Definitions for the statements\<close>

text \<open>
  The claim's words for one output element of the naive product: the prior value \<open>c\<close> plus
  the products \<open>A[i * lda + k] * B[k * ldb + j]\<close> for \<open>k = 0 .. K - 1\<close>, added one at a
  time in increasing \<open>k\<close>.
\<close>

definition accumulated_dot ::
  "'a fpu \<Rightarrow> 'a mem \<Rightarrow> 'a mem \<Rightarrow> int \<Rightarrow> int \<Rightarrow> int \<Rightarrow> int \<Rightarrow> int \<Rightarrow> 'a \<Rightarrow> 'a" where
  "accumulated_dot fl A B lda ldb i j K c =
     fold (\<lambda>k c. fadd fl c (fmul fl (A (i * lda + k)) (B (k * ldb + j)))) [0..K - 1] c"

text \<open>Exact integer arithmetic, to run the model on concrete matrices.\<close>

definition exact_int :: "int fpu" where
  "exact_int = \<lparr>fmul = (*), fadd = (+), fmadd = (\<lambda>a b c. a * b + c)\<rparr>"

text \<open>
  The output cells of tile \<open>t\<close>: the rows \<open>ii .. iMax - 1\<close> and the columns
  \<open>jj .. jMax - 1\<close> that the tiled implementations compute from \<open>t\<close>.
\<close>

definition tile_cells :: "int \<Rightarrow> int \<Rightarrow> int \<Rightarrow> int \<Rightarrow> int \<Rightarrow> (int \<times> int) set" where
  "tile_cells M N mb nb t =
     (let nJ = tile_count N nb
      in {tile_ii mb nJ t ..< tile_iMax M mb nJ t} \<times> {tile_jj nb nJ t ..< tile_jMax N nb nJ t})"

text \<open>
  The values \<open>0, 8, 16, ...\<close> below \<open>n\<close> that the loops \<open>for (i0 = 0; i0 < n; i0 += 8)\<close>
  of gemm\_mk\_avx2.cpp take, and the elements of \<open>C\<close> in the \<open>mr x nr\<close> sub-block at
  \<open>(i0, j0)\<close> of the tile at \<open>(ii, jj)\<close>.
\<close>

definition block_origins :: "int \<Rightarrow> int list" where
  "block_origins n = map (\<lambda>m. 8 * int m) [0..<nat ((n + 7) div 8)]"

definition block_region :: "int \<Rightarrow> int \<Rightarrow> int \<Rightarrow> int \<Rightarrow> int \<Rightarrow> int \<Rightarrow> int \<Rightarrow> int set" where
  "block_region ldc ii jj i0 j0 mr nr =
     (\<lambda>(r, c). (ii + i0 + r) * ldc + (jj + j0 + c)) ` ({0..<mr} \<times> {0..<nr})"

text \<open>
  An arithmetic in which the fused multiply-add gives what the scalar statement
  \<open>c += a * b\<close> gives: exact arithmetic, or binary32 when the compiler contracts the scalar
  statement into a fused multiply-add.
\<close>

definition fused :: "'a fpu \<Rightarrow> bool" where
  "fused fl \<longleftrightarrow> (\<forall>a b c. fmadd fl a b c = fadd fl c (fmul fl a b))"

text \<open>
  The products for \<open>k = k0 .. k1 - 1\<close> added to \<open>c\<close> in increasing \<open>k\<close>, and the update
  of the rows \<open>ii .. iMax - 1\<close>, columns \<open>jj .. jMax - 1\<close> of \<open>C\<close> by them, element by
  element.
\<close>

definition dot_range ::
  "'a fpu \<Rightarrow> 'a mem \<Rightarrow> 'a mem \<Rightarrow> int \<Rightarrow> int \<Rightarrow> int \<Rightarrow> int \<Rightarrow> int \<Rightarrow> int \<Rightarrow> 'a \<Rightarrow> 'a" where
  "dot_range fl A B lda ldb i j k0 k1 c =
     fold (\<lambda>k c. fadd fl c (fmul fl (A (i * lda + k)) (B (k * ldb + j)))) [k0..k1 - 1] c"

definition chunk_update ::
  "'a fpu \<Rightarrow> 'a mem \<Rightarrow> 'a mem \<Rightarrow> int \<Rightarrow> int \<Rightarrow> int \<Rightarrow> int \<Rightarrow> int \<Rightarrow> int \<Rightarrow> int \<Rightarrow> int \<Rightarrow> int \<Rightarrow>
   'a mem \<Rightarrow> 'a mem" where
  "chunk_update fl A B lda ldb ldc ii iMax jj jMax k0 k1 C =
     (\<lambda>p. fold (\<lambda>i c. if i * ldc + jj \<le> p \<and> p < i * ldc + jMax
                       then dot_range fl A B lda ldb i (p - i * ldc) k0 k1 c else c)
              [ii..iMax - 1] (C p))"

text \<open>
  With a positive stride every index \<open>p\<close> of \<open>C\<close> is one cell \<open>(p div ldc, p mod ldc)\<close>;
  \<open>cell_update\<close> applies \<open>D i j\<close> to the cells of a set and leaves the others.
\<close>

definition cell_update ::
  "int \<Rightarrow> (int \<times> int) set \<Rightarrow> (int \<Rightarrow> int \<Rightarrow> 'a \<Rightarrow> 'a) \<Rightarrow> 'a mem \<Rightarrow> 'a mem" where
  "cell_update ldc W D C =
     (\<lambda>p. if (p div ldc, p mod ldc) \<in> W then D (p div ldc) (p mod ldc) (C p) else C p)"


text \<open>
  The eight accumulator registers of the 8x8 kernel after the depth steps \<open>0 .. k - 1\<close>,
  when every fused multiply-add is read as \<open>c + a * b\<close>.
\<close>

definition acc_after ::
  "'a fpu \<Rightarrow> int \<Rightarrow> 'a mem \<Rightarrow> 'a mem \<Rightarrow> int \<Rightarrow> 'a mem \<Rightarrow> int \<Rightarrow> int \<Rightarrow> 'a m256 list" where
  "acc_after fl KC A B ldb C ldc k =
     map (\<lambda>r. map (\<lambda>l. dot_range fl A B KC ldb (int r) (int l) 0 k (C (int r * ldc + int l)))
                [0..<8]) [0..<8]"

section \<open>Loops and pointwise updates\<close>

lemma for_range_empty: "hi \<le> lo \<Longrightarrow> for_range lo hi body s = s"
  by (simp add: for_range_def)

lemma for_range_first:
  "lo < hi \<Longrightarrow> for_range lo hi body s = for_range (lo + 1) hi body (body lo s)"
  by (simp add: for_range_def upto_rec1)

lemma for_range_last:
  "lo < hi \<Longrightarrow> for_range lo hi body s = body (hi - 1) (for_range lo (hi - 1) body s)"
  by (simp add: for_range_def upto_rec2)

lemma fold_pointwise:
  "fold (\<lambda>x C p. if R x p then h x p (C p) else C p) xs C p
     = fold (\<lambda>x c. if R x p then h x p c else c) xs (C p)"
  by (induction xs arbitrary: C) simp_all

lemma fold_unchanged: "(\<And>x s. x \<in> set xs \<Longrightarrow> f x s = s) \<Longrightarrow> fold f xs s = s"
  by (induction xs arbitrary: s) simp_all

lemma fold_if_none:
  "(\<And>x. x \<in> set xs \<Longrightarrow> \<not> R x) \<Longrightarrow> fold (\<lambda>x c. if R x then h x c else c) xs c = c"
  by (induction xs arbitrary: c) simp_all

lemma fold_if_one:
  "distinct xs \<Longrightarrow> a \<in> set xs \<Longrightarrow> R a \<Longrightarrow> (\<And>x. x \<in> set xs \<Longrightarrow> R x \<Longrightarrow> x = a)
     \<Longrightarrow> fold (\<lambda>x c. if R x then h x c else c) xs c = h a c"
proof (induction xs arbitrary: c)
  case Nil
  then show ?case by simp
next
  case (Cons x xs)
  show ?case
  proof (cases "x = a")
    case True
    then have "a \<notin> set xs" using Cons.prems(1) by simp
    then have "\<And>y. y \<in> set xs \<Longrightarrow> \<not> R y" using Cons.prems(4) by auto
    then have "fold (\<lambda>x c. if R x then h x c else c) xs (h a c) = h a c"
      by (rule fold_if_none)
    then show ?thesis using True Cons.prems(3) by simp
  next
    case False
    then have "\<not> R x" using Cons.prems(4) by auto
    moreover have "fold (\<lambda>x c. if R x then h x c else c) xs c = h a c"
      using Cons.prems False by (intro Cons.IH) auto
    ultimately show ?thesis by simp
  qed
qed

text \<open>The scalar row update in closed form.\<close>

lemma row_update_closed:
  "for_range lo hi (\<lambda>j C. C(base + j := g j (C (base + j)))) C
     = (\<lambda>p. if base + lo \<le> p \<and> p < base + hi then g (p - base) (C p) else C p)"
proof (induction "nat (hi - lo)" arbitrary: hi)
  case 0
  then have "hi \<le> lo" by simp
  then show ?case by (intro ext) (auto simp: for_range_empty)
next
  case (Suc n)
  then have lt: "lo < hi" and n: "n = nat ((hi - 1) - lo)" by simp_all
  let ?body = "\<lambda>j C. C(base + j := g j (C (base + j)))"
  have IH: "for_range lo (hi - 1) ?body C
     = (\<lambda>p. if base + lo \<le> p \<and> p < base + (hi - 1) then g (p - base) (C p) else C p)"
    by (rule Suc.hyps(1) [OF n])
  have "for_range lo hi ?body C = ?body (hi - 1) (for_range lo (hi - 1) ?body C)"
    by (rule for_range_last [OF lt])
  then show ?case
    unfolding IH using lt by (intro ext) auto
qed

lemma row_update_fun:
  "for_range lo hi (\<lambda>j C. C(base + j := g j (C (base + j))))
     = (\<lambda>C p. if base + lo \<le> p \<and> p < base + hi then g (p - base) (C p) else C p)"
  by (intro ext) (simp add: row_update_closed)

lemma scalar_row_fun:
  "for_range lo hi (\<lambda>j C. C(crow + j := fadd fl (C (crow + j)) (fmul fl a (B (brow + j)))))
     = (\<lambda>C p. if crow + lo \<le> p \<and> p < crow + hi
               then fadd fl (C p) (fmul fl a (B (brow + (p - crow)))) else C p)"
  by (rule row_update_fun [where g = "\<lambda>j c. fadd fl c (fmul fl a (B (brow + j)))"])

lemma for_step_continue:
  "0 < step \<Longrightarrow> j < stop \<Longrightarrow>
     for_step step stop body j s = for_step step stop body (j + step) (body j s)"
  by (subst for_step.simps) simp

lemma for_step_done: "\<not> (0 < step \<and> j < stop) \<Longrightarrow> for_step step stop body j s = (j, s)"
  by (subst for_step.simps) auto

lemma for_step_commute:
  assumes "\<And>j s. body' j (f s) = f (body j s)"
  shows "for_step step stop body' j (f s) = apsnd f (for_step step stop body j s)"
proof (induction "nat (stop - j)" arbitrary: j s rule: less_induct)
  case less
  show ?case
  proof (cases "0 < step \<and> j < stop")
    case True
    then have "nat (stop - (j + step)) < nat (stop - j)" by simp
    then have "for_step step stop body' (j + step) (f (body j s))
                 = apsnd f (for_step step stop body (j + step) (body j s))"
      by (rule less.hyps)
    then show ?thesis
      using True by (simp add: for_step_continue assms)
  next
    case False
    then show ?thesis by (simp add: for_step_done)
  qed
qed

lemma fold_commute_state:
  assumes "\<And>x s. body' x (f s) = f (body x s)"
  shows "fold body' xs (f s) = f (fold body xs s)"
  by (induction xs arbitrary: s) (simp_all add: assms)

lemma for_range_commute:
  assumes "\<And>j s. body' j (f s) = f (body j s)"
  shows "for_range lo hi body' (f s) = f (for_range lo hi body s)"
  unfolding for_range_def by (rule fold_commute_state) (rule assms)

section \<open>The depth loop and the tile loop\<close>


lemma kk_loop_exit: "\<not> kk < K \<Longrightarrow> kk_loop K kb body kk s = Some (Completed s)"
  by (subst kk_loop.simps) simp

lemma kk_loop_continue:
  "kk < K \<Longrightarrow> int32 (kk + kb) \<Longrightarrow>
     kk_loop K kb body kk s = kk_loop K kb body (kk + kb) (body kk s)"
  by (subst kk_loop.simps) simp


text \<open>
  A positive step ends the loop, and no sum overflows when \<open>K + KB\<close> is at most \<open>2^31\<close>:
  every \<open>kk\<close> the loop sees is below \<open>K\<close>.
\<close>

lemma kk_loop_in_range:
  assumes "0 < kb" "K + kb \<le> 2147483648" "0 \<le> kk" "kk < K"
  shows "int32 (kk + kb)"
  using assms by (simp add: int32_def)









lemma tiles_loop_empty: "nTiles \<le> 0 \<Longrightarrow> tiles_loop nTiles body s = Some (Completed s)"
  by (simp add: tiles_loop_def)

section \<open>The naive product\<close>

lemma rows_disjoint:
  fixes ld :: int
  assumes "w \<le> ld" "i * ld + lo \<le> p" "p < i * ld + lo + w" "i' * ld + lo \<le> p" "p < i' * ld + lo + w"
  shows "i = i'"
proof (rule ccontr)
  assume ne: "i \<noteq> i'"
  have pos: "0 < ld" using assms by linarith
  show False
  proof (cases "i < i'")
    case True
    then have "1 * ld \<le> (i' - i) * ld" using pos by (intro mult_right_mono) auto
    then show False using assms by (simp add: algebra_simps)
  next
    case False
    then have "1 * ld \<le> (i - i') * ld" using pos ne by (intro mult_right_mono) auto
    then show False using assms by (simp add: algebra_simps)
  qed
qed

lemma naive_row:
  "for_range 0 K (\<lambda>k C.
         let a = A (i * lda + k) in
         for_range 0 N (\<lambda>j C.
           C(i * ldc + j := fadd fl (C (i * ldc + j)) (fmul fl a (B (k * ldb + j))))) C) C
   = (\<lambda>p. if i * ldc \<le> p \<and> p < i * ldc + N
           then accumulated_dot fl A B lda ldb i (p - i * ldc) K (C p) else C p)"
proof -
  have "for_range 0 K (\<lambda>k C.
         let a = A (i * lda + k) in
         for_range 0 N (\<lambda>j C.
           C(i * ldc + j := fadd fl (C (i * ldc + j)) (fmul fl a (B (k * ldb + j))))) C) C p
   = (if i * ldc \<le> p \<and> p < i * ldc + N
           then accumulated_dot fl A B lda ldb i (p - i * ldc) K (C p) else C p)" for p
    unfolding Let_def scalar_row_fun
    unfolding for_range_def
    apply (subst fold_pointwise [where R = "\<lambda>k p. i * ldc + 0 \<le> p \<and> p < i * ldc + N"])
    by (simp add: accumulated_dot_def fold_if_none)
  then show ?thesis by (intro ext)
qed

lemma gemm_naive_closed:
  "gemm_naive fl M N K A B C lda ldb ldc p =
     fold (\<lambda>i c. if i * ldc \<le> p \<and> p < i * ldc + N
                 then accumulated_dot fl A B lda ldb i (p - i * ldc) K c else c) [0..M - 1] (C p)"
  unfolding gemm_naive_def naive_row
  unfolding for_range_def
  by (rule fold_pointwise)

text \<open>
  C2. For \<open>M, N, K \<ge> 0\<close> and strides \<open>lda \<ge> K\<close>, \<open>ldb \<ge> N\<close>, \<open>ldc \<ge> N\<close>, \<open>gemm_naive\<close>
  accumulates in place: every \<open>C[i * ldc + j]\<close> with \<open>i < M\<close>, \<open>j < N\<close> ends as its prior
  value plus the products of row \<open>i\<close> of \<open>A\<close> and column \<open>j\<close> of \<open>B\<close>, added in increasing
  \<open>k\<close>, and no other element of \<open>C\<close> changes.
\<close>

theorem gemm_naive_accumulates_in_place:
  assumes "0 \<le> M" "0 \<le> N" "0 \<le> K" "K \<le> lda" "N \<le> ldb" "N \<le> ldc"
  shows "(\<forall>i j. 0 \<le> i \<and> i < M \<and> 0 \<le> j \<and> j < N \<longrightarrow>
            gemm_naive fl M N K A B C lda ldb ldc (i * ldc + j)
              = accumulated_dot fl A B lda ldb i j K (C (i * ldc + j)))
       \<and> (\<forall>p. (\<forall>i j. 0 \<le> i \<and> i < M \<and> 0 \<le> j \<and> j < N \<longrightarrow> p \<noteq> i * ldc + j) \<longrightarrow>
            gemm_naive fl M N K A B C lda ldb ldc p = C p)"
proof (intro conjI allI impI)
  fix i j
  assume ij: "0 \<le> i \<and> i < M \<and> 0 \<le> j \<and> j < N"
  let ?p = "i * ldc + j"
  let ?R = "\<lambda>i'. i' * ldc \<le> ?p \<and> ?p < i' * ldc + N"
  have "fold (\<lambda>i' c. if ?R i' then accumulated_dot fl A B lda ldb i' (?p - i' * ldc) K c else c)
          [0..M - 1] (C ?p) = accumulated_dot fl A B lda ldb i (?p - i * ldc) K (C ?p)"
  proof (rule fold_if_one)
    show "distinct [0..M - 1]" by simp
    show "i \<in> set [0..M - 1]" using ij by simp
    show "?R i" using ij by simp
    fix x assume "x \<in> set [0..M - 1]" and "?R x"
    then show "x = i"
      using rows_disjoint [of N ldc x 0 ?p i] assms(6) ij by simp
  qed
  then show "gemm_naive fl M N K A B C lda ldb ldc ?p
              = accumulated_dot fl A B lda ldb i j K (C ?p)"
    by (simp add: gemm_naive_closed)
next
  fix p
  assume out: "\<forall>i j. 0 \<le> i \<and> i < M \<and> 0 \<le> j \<and> j < N \<longrightarrow> p \<noteq> i * ldc + j"
  have "\<not> (i * ldc \<le> p \<and> p < i * ldc + N)" if "i \<in> set [0..M - 1]" for i
  proof
    assume a: "i * ldc \<le> p \<and> p < i * ldc + N"
    have "p \<noteq> i * ldc + (p - i * ldc)" using out that a
      by (intro out [rule_format]) auto
    then show False by simp
  qed
  then show "gemm_naive fl M N K A B C lda ldb ldc p = C p"
    unfolding gemm_naive_closed by (intro fold_if_none) 
qed

theorem gemm_naive_accumulates_in_place_witness:
  "(0::int) \<le> 2 \<and> (0::int) \<le> 2 \<and> (0::int) \<le> 2 \<and> (2::int) \<le> 3 \<and> (2::int) \<le> 2 \<and> (2::int) \<le> 4
   \<and> gemm_naive exact_int 2 2 2 (\<lambda>p. p + 1) (\<lambda>p. 2 * p + 1) (\<lambda>p. 10) 3 2 4 (1 * 4 + 1) = 57
   \<and> gemm_naive exact_int 2 2 2 (\<lambda>p. p + 1) (\<lambda>p. 2 * p + 1) (\<lambda>p. 10) 3 2 4 7 = 10"
proof -
  let ?A = "\<lambda>p::int. p + 1" and ?B = "\<lambda>p::int. 2 * p + 1" and ?C = "\<lambda>p::int. (10::int)"
  have T: "(\<forall>i j. 0 \<le> i \<and> i < 2 \<and> 0 \<le> j \<and> j < 2 \<longrightarrow>
            gemm_naive exact_int 2 2 2 ?A ?B ?C 3 2 4 (i * 4 + j)
              = accumulated_dot exact_int ?A ?B 3 2 i j 2 (?C (i * 4 + j)))
       \<and> (\<forall>p. (\<forall>i j. 0 \<le> i \<and> i < 2 \<and> 0 \<le> j \<and> j < 2 \<longrightarrow> p \<noteq> i * 4 + j) \<longrightarrow>
            gemm_naive exact_int 2 2 2 ?A ?B ?C 3 2 4 p = ?C p)"
    by (rule gemm_naive_accumulates_in_place) simp_all
  have a: "gemm_naive exact_int 2 2 2 ?A ?B ?C 3 2 4 (1 * 4 + 1)
             = accumulated_dot exact_int ?A ?B 3 2 1 1 2 (?C (1 * 4 + 1))"
    by (rule T [THEN conjunct1, rule_format]) simp
  have "\<forall>i j::int. 0 \<le> i \<and> i < 2 \<and> 0 \<le> j \<and> j < 2 \<longrightarrow> 7 \<noteq> i * 4 + j" by arith
  then have b: "gemm_naive exact_int 2 2 2 ?A ?B ?C 3 2 4 7 = ?C 7"
    by (rule T [THEN conjunct2, THEN spec, THEN mp])
  have c: "accumulated_dot exact_int ?A ?B 3 2 1 1 2 (?C (1 * 4 + 1)) = 57"
    by (simp add: accumulated_dot_def exact_int_def upto.simps)
  show ?thesis using a b c by simp
qed

section \<open>Panel packing\<close>

lemma copy_row_fun:
  "for_range lo hi (\<lambda>k P. P(prow + k := A (arow + k)))
     = (\<lambda>P p. if prow + lo \<le> p \<and> p < prow + hi then A (arow + (p - prow)) else P p)"
  by (rule row_update_fun [where g = "\<lambda>k c. A (arow + k)"])

lemma pack_A_panel_closed:
  "pack_A_panel mb kb A lda A_packed p =
     fold (\<lambda>i c. if i * kb \<le> p \<and> p < i * kb + kb then A (i * lda + (p - i * kb)) else c)
       [0..mb - 1] (A_packed p)"
  unfolding pack_A_panel_def copy_row_fun
  unfolding for_range_def
  by (simp add: fold_pointwise [where R = "\<lambda>i p. i * kb \<le> p \<and> p < i * kb + kb"
        and h = "\<lambda>i p c. A (i * lda + (p - i * kb))"])

lemma pack_A_panel_copies:
  assumes "0 \<le> i" "i < mb" "0 \<le> k" "k < kb"
  shows "pack_A_panel mb kb A lda A_packed (i * kb + k) = A (i * lda + k)"
proof -
  let ?p = "i * kb + k"
  let ?R = "\<lambda>i'. i' * kb \<le> ?p \<and> ?p < i' * kb + kb"
  have "fold (\<lambda>i' c. if ?R i' then A (i' * lda + (?p - i' * kb)) else c) [0..mb - 1] (A_packed ?p)
          = A (i * lda + (?p - i * kb))"
  proof (rule fold_if_one [where h = "\<lambda>i' c. A (i' * lda + (?p - i' * kb))"])
    show "distinct [0..mb - 1]" by simp
    show "i \<in> set [0..mb - 1]" using assms by simp
    show "?R i" using assms by simp
    fix x assume "x \<in> set [0..mb - 1]" and "?R x"
    then show "x = i"
      using rows_disjoint [of kb kb x 0 ?p i] assms by simp
  qed
  then show ?thesis by (simp add: pack_A_panel_closed)
qed

lemma pack_A_panel_frame:
  assumes "\<And>i. 0 \<le> i \<Longrightarrow> i < mb \<Longrightarrow> \<not> (i * kb \<le> p \<and> p < i * kb + kb)"
  shows "pack_A_panel mb kb A lda A_packed p = A_packed p"
  unfolding pack_A_panel_closed using assms by (intro fold_if_none) auto

lemma pack_B_panel_eq: "pack_B_panel kb nb B ldb B_packed = pack_A_panel kb nb B ldb B_packed"
  by (simp add: pack_B_panel_def pack_A_panel_def)

lemma pack_A_panel_mk_eq: "pack_A_panel_mk = pack_A_panel"
  by (intro ext) (simp add: pack_A_panel_mk_def pack_A_panel_def)

lemma pack_B_panel_mk_eq: "pack_B_panel_mk = pack_A_panel"
  by (intro ext) (simp add: pack_B_panel_mk_def pack_A_panel_def)

text \<open>
  C5. Packing is a lossless copy: for \<open>MB, KB \<ge> 0\<close> and \<open>lda \<ge> KB\<close>, after
  \<open>pack_A_panel(MB, KB, A, lda, A_packed)\<close> every \<open>A_packed[i * KB + k]\<close> with \<open>i < MB\<close>,
  \<open>k < KB\<close> is \<open>A[i * lda + k]\<close>, and after \<open>pack_B_panel(KB, NB, B, ldb, B_packed)\<close>
  every \<open>B_packed[k * NB + j]\<close> with \<open>k < KB\<close>, \<open>j < NB\<close> is \<open>B[k * ldb + j]\<close>; the same
  holds for the two packers of gemm\_mk\_avx2.cpp. The values are copied, not computed.
\<close>

theorem packing_is_lossless:
  assumes "0 \<le> mb" "0 \<le> kb" "0 \<le> nb" "kb \<le> lda" "nb \<le> ldb"
  shows "(\<forall>i k. 0 \<le> i \<and> i < mb \<and> 0 \<le> k \<and> k < kb \<longrightarrow>
            pack_A_panel mb kb A lda A_packed (i * kb + k) = A (i * lda + k)
          \<and> pack_A_panel_mk mb kb A lda A_packed (i * kb + k) = A (i * lda + k))
       \<and> (\<forall>k j. 0 \<le> k \<and> k < kb \<and> 0 \<le> j \<and> j < nb \<longrightarrow>
            pack_B_panel kb nb B ldb B_packed (k * nb + j) = B (k * ldb + j)
          \<and> pack_B_panel_mk kb nb B ldb B_packed (k * nb + j) = B (k * ldb + j))"
  by (simp add: pack_A_panel_copies pack_B_panel_eq pack_A_panel_mk_eq pack_B_panel_mk_eq)

theorem packing_is_lossless_witness:
  "(0::int) \<le> 2 \<and> (0::int) \<le> 3 \<and> (0::int) \<le> 2 \<and> (3::int) \<le> 5 \<and> (2::int) \<le> 4
   \<and> pack_A_panel 2 3 (\<lambda>p. 100 + p) 5 (\<lambda>p. 0) (1 * 3 + 2) = (107::int)
   \<and> pack_A_panel_mk 2 3 (\<lambda>p. 100 + p) 5 (\<lambda>p. 0) (1 * 3 + 2) = (107::int)
   \<and> pack_B_panel 3 2 (\<lambda>p. 200 + p) 4 (\<lambda>p. 0) (2 * 2 + 1) = (209::int)
   \<and> pack_B_panel_mk 3 2 (\<lambda>p. 200 + p) 4 (\<lambda>p. 0) (2 * 2 + 1) = (209::int)"
proof -
  have T: "(\<forall>i k. 0 \<le> i \<and> i < 2 \<and> 0 \<le> k \<and> k < 3 \<longrightarrow>
            pack_A_panel 2 3 (\<lambda>p. 100 + p) 5 (\<lambda>p. 0::int) (i * 3 + k) = 100 + (i * 5 + k)
          \<and> pack_A_panel_mk 2 3 (\<lambda>p. 100 + p) 5 (\<lambda>p. 0::int) (i * 3 + k) = 100 + (i * 5 + k))
       \<and> (\<forall>k j. 0 \<le> k \<and> k < 3 \<and> 0 \<le> j \<and> j < 2 \<longrightarrow>
            pack_B_panel 3 2 (\<lambda>p. 200 + p) 4 (\<lambda>p. 0::int) (k * 2 + j) = 200 + (k * 4 + j)
          \<and> pack_B_panel_mk 3 2 (\<lambda>p. 200 + p) 4 (\<lambda>p. 0::int) (k * 2 + j) = 200 + (k * 4 + j))"
    by (rule packing_is_lossless) simp_all
  have a: "pack_A_panel 2 3 (\<lambda>p. 100 + p) 5 (\<lambda>p. 0::int) (1 * 3 + 2) = 100 + (1 * 5 + 2)
     \<and> pack_A_panel_mk 2 3 (\<lambda>p. 100 + p) 5 (\<lambda>p. 0::int) (1 * 3 + 2) = 100 + (1 * 5 + 2)"
    by (rule T [THEN conjunct1, THEN spec, THEN spec, THEN mp]) simp
  have b: "pack_B_panel 3 2 (\<lambda>p. 200 + p) 4 (\<lambda>p. 0::int) (2 * 2 + 1) = 200 + (2 * 4 + 1)
     \<and> pack_B_panel_mk 3 2 (\<lambda>p. 200 + p) 4 (\<lambda>p. 0::int) (2 * 2 + 1) = 200 + (2 * 4 + 1)"
    by (rule T [THEN conjunct2, THEN spec, THEN spec, THEN mp]) simp
  show ?thesis using a b by simp
qed

section \<open>The tile decomposition\<close>

lemma sdiv_nonneg: "0 \<le> a \<Longrightarrow> 0 < b \<Longrightarrow> a sdiv b = a div (b::int)"
  by (simp add: signed_divide_int_def sgn_if)

lemma smod_nonneg: "0 \<le> a \<Longrightarrow> 0 < b \<Longrightarrow> a smod b = a mod (b::int)"
  by (simp add: signed_modulo_int_def sgn_if)

lemma tile_count_pos: "0 \<le> M \<Longrightarrow> 0 < mb \<Longrightarrow> tile_count M mb = (M + mb - 1) div mb"
  by (simp add: tile_count_def sdiv_nonneg)

lemma ceil_div_int:
  fixes M mb :: int
  assumes "0 < mb"
  shows "(M + mb - 1) div mb = - (- M div mb)"
proof (cases "M mod mb = 0")
  case True
  have "(M + mb - 1) div mb = M div mb"
  proof (rule int_div_pos_eq [where r = "mb - 1"])
    have "M = mb * (M div mb)" using True mult_div_mod_eq [of mb M] by simp
    then show "M + mb - 1 = mb * (M div mb) + (mb - 1)" by simp
  qed (use assms in auto)
  then show ?thesis using True assms by (simp add: zdiv_zminus1_eq_if)
next
  case False
  have r: "0 < M mod mb" "M mod mb < mb"
    using False pos_mod_sign [OF assms, of M] pos_mod_bound [OF assms, of M] by linarith+
  have "(M + mb - 1) div mb = M div mb + 1"
  proof (rule int_div_pos_eq [where r = "M mod mb - 1"])
    have "M = mb * (M div mb) + M mod mb" by simp
    then show "M + mb - 1 = mb * (M div mb + 1) + (M mod mb - 1)"
      by (simp add: algebra_simps)
  qed (use r in auto)
  then show ?thesis using False assms by (simp add: zdiv_zminus1_eq_if)
qed

lemma tile_count_ceiling:
  assumes "0 \<le> M" "0 < mb"
  shows "tile_count M mb = \<lceil>real_of_int M / real_of_int mb\<rceil>"
  using assms by (simp add: tile_count_pos ceil_div_int ceiling_divide_eq_div)

lemma tile_count_bounds:
  assumes "0 \<le> M" "0 < mb"
  shows "0 \<le> tile_count M mb" and "M \<le> tile_count M mb * mb"
    and "\<And>i. 0 \<le> i \<Longrightarrow> i < M \<Longrightarrow> i div mb < tile_count M mb"
proof -
  have eq: "tile_count M mb = (M + mb - 1) div mb" using assms by (rule tile_count_pos)
  show "0 \<le> tile_count M mb" unfolding eq using assms by (simp add: pos_imp_zdiv_nonneg_iff)
  have "M + mb - 1 = mb * ((M + mb - 1) div mb) + (M + mb - 1) mod mb" by simp
  moreover have "(M + mb - 1) mod mb < mb" using assms by simp
  ultimately have "M + mb - 1 < mb * ((M + mb - 1) div mb) + mb" by linarith
  then show le: "M \<le> tile_count M mb * mb" unfolding eq by (simp add: algebra_simps)
  fix i assume i: "0 \<le> i" "i < M"
  have "i < tile_count M mb * mb" using i le by linarith
  moreover have "mb * (i div mb) \<le> i"
    using assms mult_div_mod_eq [of mb i] pos_mod_sign [of mb i] by linarith
  ultimately have "mb * (i div mb) < mb * tile_count M mb" by (simp add: mult.commute)
  then show "i div mb < tile_count M mb"
    using assms by (simp add: mult_less_cancel_left_pos)
qed

lemma in_block_iff:
  fixes i :: int
  assumes "0 < mb"
  shows "q * mb \<le> i \<and> i < q * mb + mb \<longleftrightarrow> i div mb = q"
proof
  assume a: "q * mb \<le> i \<and> i < q * mb + mb"
  show "i div mb = q"
    by (rule int_div_pos_eq [where r = "i - q * mb"]) (use a in \<open>auto simp: algebra_simps\<close>)
next
  assume "i div mb = q"
  then have q: "q = i div mb" by simp
  have "i = (i div mb) * mb + i mod mb" by simp
  moreover have "0 \<le> i mod mb" "i mod mb < mb" using assms by simp_all
  ultimately have "(i div mb) * mb \<le> i \<and> i < (i div mb) * mb + mb" by linarith
  then show "q * mb \<le> i \<and> i < q * mb + mb" unfolding q .
qed

text \<open>Membership in a tile, for a tile index in range.\<close>

lemma tile_cells_iff:
  assumes "0 \<le> N" "0 < mb" "0 < nb" "0 \<le> t" "0 < tile_count N nb"
  shows "(i, j) \<in> tile_cells M N mb nb t \<longleftrightarrow>
           i div mb = t div tile_count N nb \<and> i < M \<and> j div nb = t mod tile_count N nb \<and> j < N"
proof -
  let ?nJ = "tile_count N nb"
  have "(i, j) \<in> tile_cells M N mb nb t \<longleftrightarrow>
          ((t div ?nJ) * mb \<le> i \<and> i < (t div ?nJ) * mb + mb) \<and> i < M
        \<and> ((t mod ?nJ) * nb \<le> j \<and> j < (t mod ?nJ) * nb + nb) \<and> j < N"
    using assms
    by (auto simp: tile_cells_def Let_def tile_ii_def tile_iMax_def tile_jj_def tile_jMax_def
        sdiv_nonneg smod_nonneg)
  then show ?thesis using assms by (simp add: in_block_iff)
qed

lemma tile_cells_partition:
  assumes "0 \<le> M" "0 \<le> N" "0 < mb" "0 < nb"
  shows "(\<Union>t \<in> {0 ..< tile_count M mb * tile_count N nb}. tile_cells M N mb nb t)
           = {0 ..< M} \<times> {0 ..< N}"
    and "\<And>t t'. 0 \<le> t \<Longrightarrow> t < tile_count M mb * tile_count N nb
           \<Longrightarrow> 0 \<le> t' \<Longrightarrow> t' < tile_count M mb * tile_count N nb \<Longrightarrow> t \<noteq> t'
           \<Longrightarrow> tile_cells M N mb nb t \<inter> tile_cells M N mb nb t' = {}"
proof -
  let ?nI = "tile_count M mb" and ?nJ = "tile_count N nb"
  note bI = tile_count_bounds [OF assms(1,3)] and bJ = tile_count_bounds [OF assms(2,4)]
  have nJ_pos: "0 < ?nJ" if "0 \<le> t" "t < ?nI * ?nJ" for t
  proof (rule ccontr)
    assume "\<not> 0 < ?nJ"
    then have "?nJ = 0" using bJ(1) by simp
    then show False using that by simp
  qed
  have iff: "(i, j) \<in> tile_cells M N mb nb t \<longleftrightarrow>
           i div mb = t div ?nJ \<and> i < M \<and> j div nb = t mod ?nJ \<and> j < N"
    if "0 \<le> t" "t < ?nI * ?nJ" for t i j
    using assms that nJ_pos [OF that] by (intro tile_cells_iff) auto
  have sub: "tile_cells M N mb nb t \<subseteq> {0 ..< M} \<times> {0 ..< N}" if t: "0 \<le> t" "t < ?nI * ?nJ" for t
  proof
    fix x assume x: "x \<in> tile_cells M N mb nb t"
    obtain i j where ij: "x = (i, j)" by (cases x)
    have m: "i div mb = t div ?nJ \<and> i < M \<and> j div nb = t mod ?nJ \<and> j < N"
      using x iff [OF t] ij by simp
    have "0 \<le> t div ?nJ" using t nJ_pos [OF t] by (simp add: pos_imp_zdiv_nonneg_iff)
    then have "0 \<le> i div mb" using m by simp
    then have "0 \<le> i" using assms(3) by (simp add: pos_imp_zdiv_nonneg_iff)
    moreover have "0 \<le> t mod ?nJ" using nJ_pos [OF t] by simp
    then have "0 \<le> j div nb" using m by simp
    then have "0 \<le> j" using assms(4) by (simp add: pos_imp_zdiv_nonneg_iff)
    ultimately show "x \<in> {0 ..< M} \<times> {0 ..< N}" using m ij by simp
  qed
  have sup: "\<exists>t \<in> {0 ..< ?nI * ?nJ}. (i, j) \<in> tile_cells M N mb nb t"
    if ij: "0 \<le> i" "i < M" "0 \<le> j" "j < N" for i j
  proof -
    let ?t = "(i div mb) * ?nJ + j div nb"
    have qi: "0 \<le> i div mb" "i div mb < ?nI"
      using ij assms bI(3) by (simp_all add: pos_imp_zdiv_nonneg_iff)
    have qj: "0 \<le> j div nb" "j div nb < ?nJ"
      using ij assms bJ(3) by (simp_all add: pos_imp_zdiv_nonneg_iff)
    have t0: "0 \<le> ?t" using qi qj by simp
    have "(i div mb + 1) * ?nJ \<le> ?nI * ?nJ"
      using qi qj by (intro mult_right_mono) auto
    then have t1: "?t < ?nI * ?nJ" using qj by (simp add: algebra_simps)
    have d: "?t div ?nJ = i div mb" using qj by simp
    have m: "?t mod ?nJ = j div nb" using qj by simp
    have "(i, j) \<in> tile_cells M N mb nb ?t"
      using iff [OF t0 t1] d m ij by simp
    then show ?thesis using t0 t1 by auto
  qed
  have union: "(\<Union>t \<in> {0 ..< ?nI * ?nJ}. tile_cells M N mb nb t) = {0 ..< M} \<times> {0 ..< N}"
  proof (intro equalityI subsetI)
    fix x assume "x \<in> (\<Union>t \<in> {0 ..< ?nI * ?nJ}. tile_cells M N mb nb t)"
    then obtain t where t: "0 \<le> t" "t < ?nI * ?nJ" and x: "x \<in> tile_cells M N mb nb t"
      by auto
    show "x \<in> {0 ..< M} \<times> {0 ..< N}" using sub [OF t] x by blast
  next
    fix x assume x: "x \<in> {0 ..< M} \<times> {0 ..< N}"
    obtain i j where ij: "x = (i, j)" by (cases x)
    show "x \<in> (\<Union>t \<in> {0 ..< ?nI * ?nJ}. tile_cells M N mb nb t)"
      using sup [of i j] x ij by auto
  qed
  have disj: "tile_cells M N mb nb t \<inter> tile_cells M N mb nb t' = {}"
    if t: "0 \<le> t" "t < ?nI * ?nJ" and t': "0 \<le> t'" "t' < ?nI * ?nJ" and ne: "t \<noteq> t'" for t t'
  proof (rule ccontr)
    assume "tile_cells M N mb nb t \<inter> tile_cells M N mb nb t' \<noteq> {}"
    then obtain x where x: "x \<in> tile_cells M N mb nb t" "x \<in> tile_cells M N mb nb t'" by auto
    obtain i j where ij: "x = (i, j)" by (cases x)
    have "t div ?nJ = t' div ?nJ" "t mod ?nJ = t' mod ?nJ"
      using x iff [OF t] iff [OF t'] ij by simp_all
    then have "t = t'" by (metis mult_div_mod_eq)
    then show False using ne by simp
  qed
  show "(\<Union>t \<in> {0 ..< ?nI * ?nJ}. tile_cells M N mb nb t) = {0 ..< M} \<times> {0 ..< N}"
    by (rule union)
  show "\<And>t t'. 0 \<le> t \<Longrightarrow> t < ?nI * ?nJ \<Longrightarrow> 0 \<le> t' \<Longrightarrow> t' < ?nI * ?nJ \<Longrightarrow> t \<noteq> t'
           \<Longrightarrow> tile_cells M N mb nb t \<inter> tile_cells M N mb nb t' = {}"
    by (rule disj)
qed



text \<open>
  C7. The flattened tile decomposition partitions the output: for \<open>M, N \<ge> 0\<close> and
  \<open>MB, NB > 0\<close>, with \<open>nI = ceil(M / MB)\<close> and \<open>nJ = ceil(N / NB)\<close>, the clamped rectangles
  of the tile indices \<open>0 .. nI * nJ - 1\<close> have union \<open>[0, M) x [0, N)\<close> and are pairwise
  disjoint, so every output element lies in exactly one tile.
\<close>

theorem tiles_partition_output:
  assumes "0 \<le> M" "0 \<le> N" "0 < mb" "0 < nb"
  shows "tile_count M mb = \<lceil>real_of_int M / real_of_int mb\<rceil>
       \<and> tile_count N nb = \<lceil>real_of_int N / real_of_int nb\<rceil>
       \<and> (\<Union>t \<in> {0 ..< tile_count M mb * tile_count N nb}. tile_cells M N mb nb t)
           = {0 ..< M} \<times> {0 ..< N}
       \<and> (\<forall>t t'. 0 \<le> t \<and> t < tile_count M mb * tile_count N nb
               \<and> 0 \<le> t' \<and> t' < tile_count M mb * tile_count N nb \<and> t \<noteq> t'
             \<longrightarrow> tile_cells M N mb nb t \<inter> tile_cells M N mb nb t' = {})"
  using tile_count_ceiling [OF assms(1,3)] tile_count_ceiling [OF assms(2,4)]
    tile_cells_partition [OF assms]
  by blast

theorem tiles_partition_output_witness:
  "(0::int) \<le> 3 \<and> (0::int) \<le> 5 \<and> (0::int) < 2 \<and> (0::int) < 2
   \<and> tile_count 3 2 = 2 \<and> tile_count 5 2 = 3
   \<and> (\<Union>t \<in> {0 ..< tile_count 3 2 * tile_count 5 2}. tile_cells 3 5 2 2 t) = {0 ..< 3} \<times> {0 ..< 5}
   \<and> tile_cells 3 5 2 2 2 = {0 ..< 2} \<times> {4 ..< 5}
   \<and> tile_cells 3 5 2 2 2 \<inter> tile_cells 3 5 2 2 5 = {}"
proof -
  have n: "tile_count 3 2 = 2" "tile_count 5 2 = 3"
    by (simp_all add: tile_count_def signed_divide_int_def)
  have T: "tile_count 3 2 = \<lceil>real_of_int 3 / real_of_int 2\<rceil>
       \<and> tile_count 5 2 = \<lceil>real_of_int 5 / real_of_int 2\<rceil>
       \<and> (\<Union>t \<in> {0 ..< tile_count 3 2 * tile_count 5 2}. tile_cells 3 5 2 2 t)
           = {0 ..< 3} \<times> {0 ..< 5}
       \<and> (\<forall>t t'. 0 \<le> t \<and> t < tile_count 3 2 * tile_count 5 2
               \<and> 0 \<le> t' \<and> t' < tile_count 3 2 * tile_count 5 2 \<and> t \<noteq> t'
             \<longrightarrow> tile_cells 3 5 2 2 t \<inter> tile_cells 3 5 2 2 t' = {})"
    by (rule tiles_partition_output) simp_all
  have a: "(\<Union>t \<in> {0 ..< tile_count 3 2 * tile_count 5 2}. tile_cells 3 5 2 2 t)
             = {0 ..< 3} \<times> {0 ..< 5}"
    using T by blast
  have b: "tile_cells 3 5 2 2 2 \<inter> tile_cells 3 5 2 2 5 = {}"
    by (rule T [THEN conjunct2, THEN conjunct2, THEN conjunct2, THEN spec, THEN spec, THEN mp])
       (simp add: n)
  have c: "tile_cells 3 5 2 2 2 = {0 ..< 2} \<times> {4 ..< 5}"
    by (simp add: tile_cells_def n tile_ii_def tile_iMax_def tile_jj_def tile_jMax_def
        signed_divide_int_def signed_modulo_int_def)
  show ?thesis using n a b c by simp
qed

section \<open>The packed and the strided kernels\<close>

lemma mm256_load_ps_aligned:
  "B_addr mod 32 = 0 \<Longrightarrow> mm256_load_ps B_addr B (k * 8) = Some (mm256_loadu_ps B (k * 8))"
  by (simp add: mm256_load_ps_def mod_add_eq [symmetric, of B_addr 32 "4 * (k * 8)"])

lemma mk8x8_avx2_aligned:
  assumes "B_addr mod 32 = 0"
  shows "mk8x8_avx2 fl KC A B_addr B C ldc = Returned (mk8x8_avx2_strided fl KC A B 8 C ldc)"
proof -
  let ?step = "\<lambda>k acc. mk8x8_step fl KC A (mm256_loadu_ps B (k * 8)) k acc"
  let ?step' = "\<lambda>k acc. case acc of None \<Rightarrow> None
                    | Some acc \<Rightarrow>
                       (case mm256_load_ps B_addr B (k * 8) of None \<Rightarrow> None
                        | Some b \<Rightarrow> Some (mk8x8_step fl KC A b k acc))"
  have s: "?step' k (Some acc) = Some (?step k acc)" for k acc
    by (simp add: mm256_load_ps_aligned [OF assms])
  have s4: "?step' (k + 3) (?step' (k + 2) (?step' (k + 1) (?step' (k + 0) (Some acc))))
      = Some (?step (k + 3) (?step (k + 2) (?step (k + 1) (?step (k + 0) acc))))" for k acc
    by (simp only: s)
  have main: "for_step 4 (KC - 4 + 1)
       (\<lambda>k acc. ?step' (k + 3) (?step' (k + 2) (?step' (k + 1) (?step' (k + 0) acc)))) 0
       (Some (mk8x8_load_C C ldc))
     = apsnd Some (for_step 4 (KC - 4 + 1)
       (\<lambda>k acc. ?step (k + 3) (?step (k + 2) (?step (k + 1) (?step (k + 0) acc)))) 0
       (mk8x8_load_C C ldc))"
    by (rule for_step_commute) (rule s4)
  have tail: "for_range k KC ?step' (Some acc) = Some (for_range k KC ?step acc)" for k acc
    by (rule for_range_commute) (rule s)
  show ?thesis
    unfolding mk8x8_avx2_def mk8x8_avx2_strided_def Let_def main
    by (simp add: split_beta tail)
qed

text \<open>
  C8, as amended. The claim is that for every \<open>KC\<close> and all inputs
  \<open>mk8x8_avx2_strided(KC, A, B, 8, C, ldc)\<close> leaves \<open>C\<close> as \<open>mk8x8_avx2(KC, A, B, C, ldc)\<close>
  would, and \<open>mk_ref_strided(MR, NR, KC, A, B, NR, C, ldc)\<close> as
  \<open>mk_ref(MR, NR, KC, A, B, C, ldc)\<close> would. The scalar pair coincides for all inputs. The
  vector pair coincides when \<open>B\<close> is 32-byte aligned, which the aligned loads of \<open>mk8x8_avx2\<close>
  need (microkernel.hpp asks for a 64-byte aligned panel); the strided kernel loads
  unaligned and has no such need.
\<close>

theorem kernel_variants_coincide:
  "(B_addr mod 32 = 0 \<longrightarrow>
      mk8x8_avx2 fl KC A B_addr B C ldc = Returned (mk8x8_avx2_strided fl KC A B 8 C ldc))
   \<and> mk_ref_strided fl MR NR KC A B NR C ldc = mk_ref fl MR NR KC A B C ldc"
  by (simp add: mk8x8_avx2_aligned mk_ref_def mk_ref_strided_def)

text \<open>
  The claim as stated fails where \<open>B\<close> is not aligned: at byte address 4 and \<open>KC = 1\<close> the
  first \<open>_mm256_load_ps\<close> of \<open>mk8x8_avx2\<close> faults, while the strided kernel returns with
  \<open>C[0] = 5 + 2 * 3\<close>.
\<close>

theorem misaligned_packed_kernel_counterexample:
  "mk8x8_avx2 exact_int 1 (\<lambda>p. 2) 4 (\<lambda>p. 3) (\<lambda>p. 5) 8 = Undefined
   \<and> mk8x8_avx2_strided exact_int 1 (\<lambda>p. 2) (\<lambda>p. 3) 8 (\<lambda>p. 5) 8 0 = 11"
  by (simp add: mk8x8_avx2_def mk8x8_avx2_strided_def for_step.simps for_range_def
      mm256_load_ps_def mk8x8_store_C_def mk8x8_load_C_def mk8x8_step_def
      mm256_storeu_ps_def mm256_loadu_ps_def mm256_fmadd_ps_def mm256_broadcast_ss_def
      exact_int_def upto.simps upt_rec Let_def)


theorem kernel_variants_coincide_witness:
  "(64::int) mod 32 = 0
   \<and> mk8x8_avx2 exact_int 5 (\<lambda>p. p) 64 (\<lambda>p. p + 1) (\<lambda>p. 0) 8
       = Returned (mk8x8_avx2_strided exact_int 5 (\<lambda>p. p) (\<lambda>p. p + 1) 8 (\<lambda>p. 0) 8)
   \<and> mk_ref_strided exact_int 2 3 5 (\<lambda>p. p) (\<lambda>p. p + 1) 3 (\<lambda>p. 0) 8
       = mk_ref exact_int 2 3 5 (\<lambda>p. p) (\<lambda>p. p + 1) (\<lambda>p. 0) 8
   \<and> mk8x8_avx2_strided exact_int 1 (\<lambda>p. p + 2) (\<lambda>p. p + 1) 8 (\<lambda>p. 7) 8 9 = 13"
proof -
  have "mk8x8_avx2_strided exact_int 1 (\<lambda>p. p + 2) (\<lambda>p. p + 1) 8 (\<lambda>p. 7) 8 9 = 13"
    by (simp add: mk8x8_avx2_strided_def for_step.simps for_range_def
      mk8x8_store_C_def mk8x8_load_C_def mk8x8_step_def
      mm256_storeu_ps_def mm256_loadu_ps_def mm256_fmadd_ps_def mm256_broadcast_ss_def
      exact_int_def upto.simps upt_rec Let_def)
  then show ?thesis
    using kernel_variants_coincide [of 64 exact_int 5 "\<lambda>p. p" "\<lambda>p. p + 1" "\<lambda>p. 0" 8 2 3]
    by simp
qed

section \<open>Zero extents\<close>

lemma tile_count_zero: "0 < mb \<Longrightarrow> tile_count 0 mb = 0"
  by (simp add: tile_count_def signed_divide_int_def sgn_if)

lemma accumulated_dot_empty: "K \<le> 0 \<Longrightarrow> accumulated_dot fl A B lda ldb i j K c = c"
  by (simp add: accumulated_dot_def)

lemma gemm_naive_zero_extent:
  assumes "M \<le> 0 \<or> N \<le> 0 \<or> K \<le> 0"
  shows "gemm_naive fl M N K A B C lda ldb ldc = C"
proof
  fix p
  show "gemm_naive fl M N K A B C lda ldb ldc p = C p"
    unfolding gemm_naive_closed
    using assms by (intro fold_unchanged) (auto simp: accumulated_dot_empty)
qed








section \<open>Non-positive tile sizes\<close>




























section \<open>Footprints of the micro-kernels\<close>

lemma call_at_apply: "call_at n f P p = f (ptr_add P n) (p - n)"
  by (simp add: call_at_def ptr_add_def)

lemma for_range_cong:
  "(\<And>j s. lo \<le> j \<Longrightarrow> j < hi \<Longrightarrow> body j s = body' j s)
     \<Longrightarrow> for_range lo hi body s = for_range lo hi body' s"
  unfolding for_range_def by (rule fold_cong) auto

lemma for_step_cong:
  assumes "\<And>j s. j0 \<le> j \<Longrightarrow> j < stop \<Longrightarrow> body j s = body' j s"
  shows "j0 \<le> j \<Longrightarrow> for_step step stop body j s = for_step step stop body' j s"
proof (induction "nat (stop - j)" arbitrary: j s rule: less_induct)
  case less
  show ?case
  proof (cases "0 < step \<and> j < stop")
    case True
    then have "nat (stop - (j + step)) < nat (stop - j)" and "j0 \<le> j + step"
      using less.prems by simp_all
    then have "for_step step stop body (j + step) (body j s)
                 = for_step step stop body' (j + step) (body j s)"
      by (rule less.hyps)
    then show ?thesis
      using True less.prems by (simp add: for_step_continue assms)
  next
    case False
    then show ?thesis by (simp add: for_step_done)
  qed
qed

lemma for_step_fst_ge: "j \<le> fst (for_step step stop body j s)"
proof (induction "nat (stop - j)" arbitrary: j s rule: less_induct)
  case less
  show ?case
  proof (cases "0 < step \<and> j < stop")
    case True
    then have "nat (stop - (j + step)) < nat (stop - j)" by simp
    then have "j + step \<le> fst (for_step step stop body (j + step) (body j s))"
      by (rule less.hyps)
    then show ?thesis using True by (simp add: for_step_continue)
  next
    case False
    then show ?thesis by (simp add: for_step_done)
  qed
qed

subsection \<open>The scalar kernel\<close>

lemma mk_ref_strided_naive:
  "mk_ref_strided fl MR NR KC A_p B_p ldb C ldc = gemm_naive fl MR NR KC A_p B_p C KC ldb ldc"
  by (simp add: mk_ref_strided_def gemm_naive_def)

lemma accumulated_dot_cong:
  assumes "\<And>k. 0 \<le> k \<Longrightarrow> k < K \<Longrightarrow> A' (i * lda + k) = A (i * lda + k)"
    and "\<And>k. 0 \<le> k \<Longrightarrow> k < K \<Longrightarrow> B' (k * ldb + j) = B (k * ldb + j)"
  shows "accumulated_dot fl A' B' lda ldb i j K c = accumulated_dot fl A B lda ldb i j K c"
  unfolding accumulated_dot_def by (rule fold_cong) (auto simp: assms)

lemma gemm_naive_frame:
  assumes "\<And>i. 0 \<le> i \<Longrightarrow> i < M \<Longrightarrow> \<not> (i * ldc \<le> p \<and> p < i * ldc + N)"
  shows "gemm_naive fl M N K A B C lda ldb ldc p = C p"
  unfolding gemm_naive_closed using assms by (intro fold_if_none) auto

lemma gemm_naive_cong:
  assumes "\<And>i k. 0 \<le> i \<Longrightarrow> i < M \<Longrightarrow> 0 \<le> k \<Longrightarrow> k < K \<Longrightarrow> A' (i * lda + k) = A (i * lda + k)"
    and "\<And>k j. 0 \<le> k \<Longrightarrow> k < K \<Longrightarrow> 0 \<le> j \<Longrightarrow> j < N \<Longrightarrow> B' (k * ldb + j) = B (k * ldb + j)"
    and "C' p = C p"
  shows "gemm_naive fl M N K A' B' C' lda ldb ldc p = gemm_naive fl M N K A B C lda ldb ldc p"
  unfolding gemm_naive_closed
proof (rule fold_cong [OF assms(3) refl])
  fix i assume "i \<in> set [0..M - 1]"
  then have i: "0 \<le> i" "i < M" by simp_all
  show "(\<lambda>c. if i * ldc \<le> p \<and> p < i * ldc + N
              then accumulated_dot fl A' B' lda ldb i (p - i * ldc) K c else c)
      = (\<lambda>c. if i * ldc \<le> p \<and> p < i * ldc + N
              then accumulated_dot fl A B lda ldb i (p - i * ldc) K c else c)"
  proof (cases "i * ldc \<le> p \<and> p < i * ldc + N")
    case True
    have eq: "accumulated_dot fl A' B' lda ldb i (p - i * ldc) K c
             = accumulated_dot fl A B lda ldb i (p - i * ldc) K c" for c
      using i True by (intro accumulated_dot_cong assms(1,2)) auto
    show ?thesis by (rule ext) (simp add: eq)
  next
    case False
    show ?thesis by (rule ext) (use False in auto)
  qed
qed

subsection \<open>The vector kernel\<close>

lemma mk8x8_store_C_closed:
  "mk8x8_store_C C ldc acc p =
     fold (\<lambda>r c. if int r * ldc \<le> p \<and> p < int r * ldc + 8
                 then acc ! r ! nat (p - int r * ldc) else c) [0..<8] (C p)"
  unfolding mk8x8_store_C_def mm256_storeu_ps_def
  by (rule fold_pointwise [where R = "\<lambda>r p. int r * ldc \<le> p \<and> p < int r * ldc + 8"
        and h = "\<lambda>r p c. acc ! r ! nat (p - int r * ldc)"])

lemma fold_if_const:
  assumes "\<exists>x \<in> set xs. R x"
  shows "fold (\<lambda>x c. if R x then h x else c) xs c = fold (\<lambda>x c. if R x then h x else c) xs c'"
  using assms by (induction xs arbitrary: c c') auto

lemma mk8x8_store_C_frame:
  assumes "\<And>r. r < 8 \<Longrightarrow> \<not> (int r * ldc \<le> p \<and> p < int r * ldc + 8)"
  shows "mk8x8_store_C C ldc acc p = C p"
  unfolding mk8x8_store_C_closed using assms by (intro fold_if_none) auto

lemma mk8x8_store_C_inside:
  assumes "r < 8" "int r * ldc \<le> p" "p < int r * ldc + 8"
  shows "mk8x8_store_C C' ldc acc p = mk8x8_store_C C ldc acc p"
  unfolding mk8x8_store_C_closed
  by (rule fold_if_const) (use assms in auto)

lemma mk8x8_load_C_cong:
  assumes "\<And>r l. r < 8 \<Longrightarrow> l < 8 \<Longrightarrow> C' (int r * ldc + int l) = C (int r * ldc + int l)"
  shows "mk8x8_load_C C' ldc = mk8x8_load_C C ldc"
  unfolding mk8x8_load_C_def mm256_loadu_ps_def
  by (simp add: assms del: upt_Suc)

lemma mk8x8_step_cong:
  assumes "\<And>r. r < 8 \<Longrightarrow> A' (int r * KC + k) = A (int r * KC + k)"
    and "\<And>l. l < 8 \<Longrightarrow> B' (k * ldb + int l) = B (k * ldb + int l)"
  shows "mk8x8_step fl KC A' (mm256_loadu_ps B' (k * ldb)) k acc
       = mk8x8_step fl KC A (mm256_loadu_ps B (k * ldb)) k acc"
proof -
  have "mm256_loadu_ps B' (k * ldb) = mm256_loadu_ps B (k * ldb)"
    unfolding mm256_loadu_ps_def by (simp add: assms(2) del: upt_Suc)
  then show ?thesis
    unfolding mk8x8_step_def by (simp add: assms(1) del: upt_Suc)
qed

lemma mk8x8_avx2_strided_cong:
  assumes A: "\<And>r k. r < 8 \<Longrightarrow> 0 \<le> k \<Longrightarrow> k < KC \<Longrightarrow> A' (int r * KC + k) = A (int r * KC + k)"
    and B: "\<And>k l. 0 \<le> k \<Longrightarrow> k < KC \<Longrightarrow> l < 8 \<Longrightarrow> B' (k * ldb + int l) = B (k * ldb + int l)"
    and C: "\<And>r l. r < 8 \<Longrightarrow> l < 8 \<Longrightarrow> C' (int r * ldc + int l) = C (int r * ldc + int l)"
    and p: "r < 8" "int r * ldc \<le> p" "p < int r * ldc + 8"
  shows "mk8x8_avx2_strided fl KC A' B' ldb C' ldc p = mk8x8_avx2_strided fl KC A B ldb C ldc p"
proof -
  let ?s = "\<lambda>k acc. mk8x8_step fl KC A (mm256_loadu_ps B (k * ldb)) k acc"
  let ?s' = "\<lambda>k acc. mk8x8_step fl KC A' (mm256_loadu_ps B' (k * ldb)) k acc"
  have s: "?s' k acc = ?s k acc" if "0 \<le> k" "k < KC" for k acc
    using that by (intro mk8x8_step_cong A B) auto
  have main: "for_step 4 (KC - 4 + 1)
         (\<lambda>k acc. ?s' (k + 3) (?s' (k + 2) (?s' (k + 1) (?s' (k + 0) acc)))) 0 acc
       = for_step 4 (KC - 4 + 1)
         (\<lambda>k acc. ?s (k + 3) (?s (k + 2) (?s (k + 1) (?s (k + 0) acc)))) 0 acc" for acc
  proof (rule for_step_cong [where ?j0.0 = 0])
    fix k :: int and acc assume k: "0 \<le> k" "k < KC - 4 + 1"
    then show "?s' (k + 3) (?s' (k + 2) (?s' (k + 1) (?s' (k + 0) acc)))
             = ?s (k + 3) (?s (k + 2) (?s (k + 1) (?s (k + 0) acc)))"
      by (simp add: s)
  qed simp
  have tail: "for_range k KC ?s' acc = for_range k KC ?s acc" if "0 \<le> k" for k acc
    using that by (intro for_range_cong s) auto
  let ?loop = "for_step 4 (KC - 4 + 1)
         (\<lambda>k acc. ?s (k + 3) (?s (k + 2) (?s (k + 1) (?s (k + 0) acc)))) 0 (mk8x8_load_C C ldc)"
  let ?loop' = "for_step 4 (KC - 4 + 1)
         (\<lambda>k acc. ?s' (k + 3) (?s' (k + 2) (?s' (k + 1) (?s' (k + 0) acc)))) 0 (mk8x8_load_C C' ldc)"
  have L: "mk8x8_load_C C' ldc = mk8x8_load_C C ldc"
    by (rule mk8x8_load_C_cong) (rule C)
  have loop: "?loop' = ?loop" unfolding L by (rule main)
  have k0: "0 \<le> fst ?loop" by (rule for_step_fst_ge)
  have "mk8x8_avx2_strided fl KC A' B' ldb C' ldc p
      = mk8x8_store_C C' ldc (for_range (fst ?loop') KC ?s' (snd ?loop')) p"
    unfolding mk8x8_avx2_strided_def Let_def by (simp only: split_beta)
  also have "\<dots> = mk8x8_store_C C' ldc (for_range (fst ?loop) KC ?s (snd ?loop)) p"
    unfolding loop tail [OF k0] ..
  also have "\<dots> = mk8x8_store_C C ldc (for_range (fst ?loop) KC ?s (snd ?loop)) p"
    by (rule mk8x8_store_C_inside [OF p])
  also have "\<dots> = mk8x8_avx2_strided fl KC A B ldb C ldc p"
    unfolding mk8x8_avx2_strided_def Let_def by (simp only: split_beta)
  finally show ?thesis .
qed

lemma mk8x8_avx2_strided_frame:
  assumes "\<And>r. r < 8 \<Longrightarrow> \<not> (int r * ldc \<le> p \<and> p < int r * ldc + 8)"
  shows "mk8x8_avx2_strided fl KC A B ldb C ldc p = C p"
  unfolding mk8x8_avx2_strided_def Let_def
  by (simp add: split_beta mk8x8_store_C_frame [OF assms])

subsection \<open>The kernel chosen for a sub-block\<close>

lemma panel_index_bound:
  fixes i k m n :: int
  assumes "0 \<le> i" "i < m" "0 \<le> k" "k < n"
  shows "0 \<le> i * n + k" and "i * n + k < m * n"
proof -
  have n: "0 \<le> n" using assms by simp
  show "0 \<le> i * n + k" using assms n by simp
  have "(i + 1) * n \<le> m * n" using assms n by (intro mult_right_mono) auto
  then show "i * n + k < m * n" using assms by (simp add: algebra_simps)
qed

lemma mk_block_vec:
  assumes "i0 + 8 \<le> actual_MB" "j0 + 8 \<le> actual_NB"
  shows "mk_block fl actual_MB actual_NB actual_KB A_packed B_packed ldc ii jj i0 j0 C
       = call_at ((ii + i0) * ldc + (jj + j0))
           (\<lambda>Cblk. mk8x8_avx2_strided fl actual_KB (ptr_add A_packed (i0 * actual_KB))
                      (ptr_add B_packed j0) actual_NB Cblk ldc) C"
  using assms by (simp add: mk_block_def Let_def)

lemma mk_block_ref:
  assumes "actual_MB - i0 < 8 \<or> actual_NB - j0 < 8"
  shows "mk_block fl actual_MB actual_NB actual_KB A_packed B_packed ldc ii jj i0 j0 C
       = call_at ((ii + i0) * ldc + (jj + j0))
           (\<lambda>Cblk. mk_ref_strided fl (min 8 (actual_MB - i0)) (min 8 (actual_NB - j0)) actual_KB
                      (ptr_add A_packed (i0 * actual_KB)) (ptr_add B_packed j0) actual_NB
                      Cblk ldc) C"
  using assms by (auto simp: mk_block_def Let_def)

text \<open>
  Element \<open>(r, c)\<close> of the sub-block, as an index of \<open>C\<close>, and relative to the pointer the
  kernel gets.
\<close>

lemma block_index: 
  fixes ii :: int
  shows "(ii + i0 + r) * ldc + (jj + j0 + c) - ((ii + i0) * ldc + (jj + j0)) = r * ldc + c"
  by (simp add: algebra_simps)

lemma mk_block_frame:
  assumes out: "\<And>r c. 0 \<le> r \<Longrightarrow> r < min 8 (actual_MB - i0) \<Longrightarrow> 0 \<le> c \<Longrightarrow> c < min 8 (actual_NB - j0)
                 \<Longrightarrow> p \<noteq> (ii + i0 + r) * ldc + (jj + j0 + c)"
  shows "mk_block fl actual_MB actual_NB actual_KB A_packed B_packed ldc ii jj i0 j0 C p = C p"
proof -
  let ?off = "(ii + i0) * ldc + (jj + j0)"
  have row: "\<not> (r * ldc \<le> p - ?off \<and> p - ?off < r * ldc + min 8 (actual_NB - j0))"
    if "0 \<le> r" "r < min 8 (actual_MB - i0)" for r
  proof
    assume a: "r * ldc \<le> p - ?off \<and> p - ?off < r * ldc + min 8 (actual_NB - j0)"
    have "p \<noteq> (ii + i0 + r) * ldc + (jj + j0 + (p - ?off - r * ldc))"
      using that a by (intro out) auto
    then show False by (simp add: algebra_simps)
  qed
  show ?thesis
  proof (cases "actual_MB - i0 < 8 \<or> actual_NB - j0 < 8")
    case True
    show ?thesis
      unfolding mk_block_ref [OF True] call_at_apply mk_ref_strided_naive
      by (subst gemm_naive_frame) (use row in \<open>auto simp: ptr_add_def\<close>)
  next
    case False
    then have full: "i0 + 8 \<le> actual_MB" "j0 + 8 \<le> actual_NB" by simp_all
    have "\<not> (int r * ldc \<le> p - ?off \<and> p - ?off < int r * ldc + 8)" if "r < 8" for r
      using row [of "int r"] that full by simp
    then show ?thesis
      unfolding mk_block_vec [OF full] call_at_apply
      by (subst mk8x8_avx2_strided_frame) (auto simp: ptr_add_def)
  qed
qed

lemma mk_block_reads:
  assumes i0: "0 \<le> i0" "i0 < actual_MB" and j0: "0 \<le> j0" "j0 < actual_NB"
    and A: "\<And>q. 0 \<le> q \<Longrightarrow> q < actual_MB * actual_KB \<Longrightarrow> A' q = A_packed q"
    and B: "\<And>q. 0 \<le> q \<Longrightarrow> q < actual_KB * actual_NB \<Longrightarrow> B' q = B_packed q"
    and C: "\<And>r c. 0 \<le> r \<Longrightarrow> r < min 8 (actual_MB - i0) \<Longrightarrow> 0 \<le> c \<Longrightarrow> c < min 8 (actual_NB - j0)
              \<Longrightarrow> C' ((ii + i0 + r) * ldc + (jj + j0 + c)) = C ((ii + i0 + r) * ldc + (jj + j0 + c))"
    and rc: "0 \<le> r" "r < min 8 (actual_MB - i0)" "0 \<le> c" "c < min 8 (actual_NB - j0)"
  shows "mk_block fl actual_MB actual_NB actual_KB A' B' ldc ii jj i0 j0 C'
           ((ii + i0 + r) * ldc + (jj + j0 + c))
       = mk_block fl actual_MB actual_NB actual_KB A_packed B_packed ldc ii jj i0 j0 C
           ((ii + i0 + r) * ldc + (jj + j0 + c))"
proof -
  let ?off = "(ii + i0) * ldc + (jj + j0)"
  let ?mr = "min 8 (actual_MB - i0)" and ?nr = "min 8 (actual_NB - j0)"
  have Aeq: "ptr_add A' (i0 * actual_KB) (i * actual_KB + k)
           = ptr_add A_packed (i0 * actual_KB) (i * actual_KB + k)"
    if "0 \<le> i" "i < ?mr" "0 \<le> k" "k < actual_KB" for i k
  proof -
    have b: "0 \<le> i0 + i" "i0 + i < actual_MB" using that i0 by simp_all
    have "0 \<le> (i0 + i) * actual_KB + k" "(i0 + i) * actual_KB + k < actual_MB * actual_KB"
      using panel_index_bound [OF b that(3,4)] by simp_all
    then have "A' ((i0 + i) * actual_KB + k) = A_packed ((i0 + i) * actual_KB + k)"
      by (rule A)
    then show ?thesis by (simp add: ptr_add_def algebra_simps)
  qed
  have Beq: "ptr_add B' j0 (k * actual_NB + j) = ptr_add B_packed j0 (k * actual_NB + j)"
    if "0 \<le> k" "k < actual_KB" "0 \<le> j" "j < ?nr" for k j
  proof -
    have b: "0 \<le> j0 + j" "j0 + j < actual_NB" using that j0 by simp_all
    have "0 \<le> k * actual_NB + (j0 + j)" "k * actual_NB + (j0 + j) < actual_KB * actual_NB"
      using panel_index_bound [OF that(1,2) b] by simp_all
    then have "B' (k * actual_NB + (j0 + j)) = B_packed (k * actual_NB + (j0 + j))"
      by (rule B)
    then show ?thesis by (simp add: ptr_add_def algebra_simps)
  qed
  have Ceq: "ptr_add C' ?off (i * ldc + j) = ptr_add C ?off (i * ldc + j)"
    if "0 \<le> i" "i < ?mr" "0 \<le> j" "j < ?nr" for i j
    using C [OF that] by (simp add: ptr_add_def algebra_simps)
  show ?thesis
  proof (cases "actual_MB - i0 < 8 \<or> actual_NB - j0 < 8")
    case True
    show ?thesis
      unfolding mk_block_ref [OF True] call_at_apply mk_ref_strided_naive block_index
      by (rule gemm_naive_cong) (use Aeq Beq Ceq rc in auto)
  next
    case False
    then have full: "i0 + 8 \<le> actual_MB" "j0 + 8 \<le> actual_NB" by simp_all
    then have m8: "?mr = 8" "?nr = 8" by simp_all
    have r8: "nat r < 8" "int (nat r) = r" using rc m8 by simp_all
    show ?thesis
      unfolding mk_block_vec [OF full] call_at_apply block_index
    proof (rule mk8x8_avx2_strided_cong [where r = "nat r"])
      show "nat r < 8" by (rule r8)
      show "int (nat r) * ldc \<le> r * ldc + c" "r * ldc + c < int (nat r) * ldc + 8"
        using rc m8 r8 by simp_all
    next
      fix r' :: nat and k :: int assume "r' < 8" "0 \<le> k" "k < actual_KB"
      then show "ptr_add A' (i0 * actual_KB) (int r' * actual_KB + k)
               = ptr_add A_packed (i0 * actual_KB) (int r' * actual_KB + k)"
        using m8 by (intro Aeq) simp_all
    next
      fix k :: int and l :: nat assume "0 \<le> k" "k < actual_KB" "l < 8"
      then show "ptr_add B' j0 (k * actual_NB + int l) = ptr_add B_packed j0 (k * actual_NB + int l)"
        using m8 by (intro Beq) simp_all
    next
      fix r' l :: nat assume "r' < 8" "l < 8"
      then show "ptr_add C' ?off (int r' * ldc + int l) = ptr_add C ?off (int r' * ldc + int l)"
        using m8 by (intro Ceq) simp_all
    qed
  qed
qed

subsection \<open>The sub-blocks of a tile\<close>

lemma for_step_fold:
  assumes "0 < step"
  shows "snd (for_step step stop body j s)
       = fold body (map (\<lambda>m. j + step * int m) [0..<nat ((stop - j + step - 1) div step)]) s"
proof (induction "nat (stop - j)" arbitrary: j s rule: less_induct)
  case less
  show ?case
  proof (cases "j < stop")
    case True
    let ?n = "nat ((stop - (j + step) + step - 1) div step)"
    have "(stop - j + step - 1) div step = (stop - (j + step) + step - 1) div step + 1"
      using assms div_add_self2 [of step "stop - (j + step) + step - 1"] by (simp add: algebra_simps)
    moreover have "0 \<le> (stop - (j + step) + step - 1) div step"
      using True assms by (simp add: pos_imp_zdiv_nonneg_iff)
    ultimately have n: "nat ((stop - j + step - 1) div step) = Suc ?n" by simp
    have "nat (stop - (j + step)) < nat (stop - j)" using True assms by simp
    then have IH: "snd (for_step step stop body (j + step) (body j s))
        = fold body (map (\<lambda>m. (j + step) + step * int m) [0..<?n]) (body j s)"
      by (rule less.hyps)
    have "map (\<lambda>m. j + step * int m) [0..<Suc ?n]
        = j # map (\<lambda>m. (j + step) + step * int m) [0..<?n]"
      by (simp add: upt_conv_Cons map_Suc_upt [symmetric] algebra_simps del: upt_Suc)
    then show ?thesis
      using True assms IH by (simp add: for_step_continue n del: upt_Suc)
  next
    case False
    then have "stop - j + step - 1 < step" by simp
    then have "(stop - j + step - 1) div step \<le> 0"
      using assms div_neg_pos_less0 [of "stop - j + step - 1" step]
        div_pos_pos_trivial [of "stop - j + step - 1" step]
      by (cases "stop - j + step - 1 < 0") simp_all
    then show ?thesis using False by (simp add: for_step_done)
  qed
qed


lemma for_step_8_origins: "snd (for_step 8 n body 0 s) = fold body (block_origins n) s"
  by (simp add: for_step_fold block_origins_def add.commute)

lemma block_origins_range:
  assumes "i0 \<in> set (block_origins n)"
  shows "0 \<le> i0" and "i0 < n"
proof -
  obtain m where m: "i0 = 8 * int m" "m < nat ((n + 7) div 8)"
    using assms by (auto simp: block_origins_def)
  show "0 \<le> i0" using m by simp
  have "int m + 1 \<le> (n + 7) div 8" using m by simp
  then have "8 * (int m + 1) \<le> 8 * ((n + 7) div 8)" by simp
  also have "\<dots> \<le> n + 7" using mult_div_mod_eq [of 8 "n + 7"] pos_mod_sign [of 8 "n + 7"] by linarith
  finally show "i0 < n" using m by simp
qed


lemma block_region_iff:
  "p \<in> block_region ldc ii jj i0 j0 mr nr \<longleftrightarrow>
     (\<exists>r c. 0 \<le> r \<and> r < mr \<and> 0 \<le> c \<and> c < nr \<and> p = (ii + i0 + r) * ldc + (jj + j0 + c))"
  by (auto simp: block_region_def)

text \<open>
  What \<open>gemm_mk_avx2\<close> runs: once its panels are there, the tile loop over \<open>mk_tile\<close>;
  and \<open>mk_tile\<close> is the depth loop whose round packs the two panels and then runs
  \<open>mk_block\<close> once for each pair of origins, rows outside, columns inside.
\<close>

lemma gemm_mk_avx2_tiles:
  assumes "mb \<noteq> 0" "nb \<noteq> 0" "int32 (mb * kb)" "int32 (kb * nb)"
    and "posix_memalign (of_int (mb * kb) * 4) = Some A_packed"
    and "posix_memalign (of_int (kb * nb) * 4) = Some B_packed"
  shows "gemm_mk_avx2 fl openmp posix_memalign M N K A B C lda ldb ldc \<lparr>MB = mb, NB = nb, KB = kb\<rparr>
       = (case tiles_loop (tile_count M mb * tile_count N nb)
                 (mk_tile fl M N K A B lda ldb ldc mb nb kb (tile_count N nb))
                 (A_packed, B_packed, C) of
            None \<Rightarrow> Diverges
          | Some Signed_Overflow \<Rightarrow> Undefined
          | Some (Completed (A_packed', B_packed', C')) \<Rightarrow> Returned C')"
  using assms
  by (simp add: gemm_mk_avx2_def Let_def alloc_aligned_panel_def omp_parallel_def
      split: option.splits ended.splits prod.splits)

lemma mk_tile_blocks:
  "mk_tile fl M N K A B lda ldb ldc mb nb kb nJ t w
     = kk_loop K kb (\<lambda>kk (A_packed, B_packed, C).
         let actual_MB = tile_iMax M mb nJ t - tile_ii mb nJ t;
             actual_NB = tile_jMax N nb nJ t - tile_jj nb nJ t;
             actual_KB = min (kk + kb) K - kk;
             A_packed' = pack_A_panel_mk actual_MB actual_KB
                           (ptr_add A (tile_ii mb nJ t * lda + kk)) lda A_packed;
             B_packed' = pack_B_panel_mk actual_KB actual_NB
                           (ptr_add B (kk * ldb + tile_jj nb nJ t)) ldb B_packed
         in (A_packed', B_packed',
             fold (\<lambda>i0. fold (mk_block fl actual_MB actual_NB actual_KB A_packed' B_packed' ldc
                                 (tile_ii mb nJ t) (tile_jj nb nJ t) i0)
                            (block_origins actual_NB))
                  (block_origins actual_MB) C)) 0 w"
  by (simp add: mk_tile_def Let_def for_step_8_origins)

text \<open>
  C6. \<open>gemm_mk_avx2\<close>, once its two panels are allocated, is the tile loop over \<open>mk_tile\<close>,
  and \<open>mk_tile\<close> is the depth loop whose round packs the panels and updates \<open>C\<close> by
  \<open>mk_block\<close> alone, once per pair of origins \<open>0, 8, 16, ...\<close> below the extents of the
  tile. For every tile and depth chunk (any \<open>actual_MB\<close>, \<open>actual_NB\<close>, \<open>actual_KB\<close>), the
  two loops over \<open>i0\<close> and \<open>j0\<close> are that fold, and for each such pair, with
  \<open>mr = min(8, actual_MB - i0)\<close> and \<open>nr = min(8, actual_NB - j0)\<close>: both are at least 1;
  \<open>mk8x8_avx2_strided\<close> runs when \<open>mr = 8\<close> and \<open>nr = 8\<close>, and \<open>mk_ref_strided\<close> on the
  \<open>mr x nr\<close> block whenever \<open>mr < 8\<close> or \<open>nr < 8\<close>; no element of \<open>C\<close> outside the
  \<open>mr x nr\<close> block changes; and what the block of \<open>C\<close> becomes depends only on the packed
  panels inside their \<open>actual_MB * actual_KB\<close> and \<open>actual_KB * actual_NB\<close> elements and on
  that block of \<open>C\<close>: nothing outside them is read. The prefetches of the vector kernel are
  hints, not reads.
\<close>

theorem vector_kernel_only_on_full_blocks:
  "(mb \<noteq> 0 \<and> nb \<noteq> 0 \<and> int32 (mb * kb) \<and> int32 (kb * nb)
      \<and> posix_memalign (of_int (mb * kb) * 4) = Some A_panel
      \<and> posix_memalign (of_int (kb * nb) * 4) = Some B_panel
    \<longrightarrow> gemm_mk_avx2 fl openmp posix_memalign M N K A B C0 lda ldb ldc \<lparr>MB = mb, NB = nb, KB = kb\<rparr>
        = (case tiles_loop (tile_count M mb * tile_count N nb)
                  (mk_tile fl M N K A B lda ldb ldc mb nb kb (tile_count N nb))
                  (A_panel, B_panel, C0) of
             None \<Rightarrow> Diverges
           | Some Signed_Overflow \<Rightarrow> Undefined
           | Some (Completed (A_packed', B_packed', C')) \<Rightarrow> Returned C'))
   \<and> mk_tile fl M N K A B lda ldb ldc mb nb kb nJ t w
     = kk_loop K kb (\<lambda>kk (A_packed, B_packed, C).
         let actual_MB = tile_iMax M mb nJ t - tile_ii mb nJ t;
             actual_NB = tile_jMax N nb nJ t - tile_jj nb nJ t;
             actual_KB = min (kk + kb) K - kk;
             A_packed' = pack_A_panel_mk actual_MB actual_KB
                           (ptr_add A (tile_ii mb nJ t * lda + kk)) lda A_packed;
             B_packed' = pack_B_panel_mk actual_KB actual_NB
                           (ptr_add B (kk * ldb + tile_jj nb nJ t)) ldb B_packed
         in (A_packed', B_packed',
             fold (\<lambda>i0. fold (mk_block fl actual_MB actual_NB actual_KB A_packed' B_packed' ldc
                                 (tile_ii mb nJ t) (tile_jj nb nJ t) i0)
                            (block_origins actual_NB))
                  (block_origins actual_MB) C)) 0 w
   \<and> snd (for_step 8 actual_MB (\<lambda>i0 C.
          snd (for_step 8 actual_NB (\<lambda>j0 C.
            mk_block fl actual_MB actual_NB actual_KB A_packed B_packed ldc ii jj i0 j0 C) 0 C)) 0 C)
     = fold (\<lambda>i0. fold (mk_block fl actual_MB actual_NB actual_KB A_packed B_packed ldc ii jj i0)
                      (block_origins actual_NB)) (block_origins actual_MB) C
   \<and> (\<forall>i0 \<in> set (block_origins actual_MB). \<forall>j0 \<in> set (block_origins actual_NB).
        1 \<le> min 8 (actual_MB - i0) \<and> 1 \<le> min 8 (actual_NB - j0)
      \<and> (min 8 (actual_MB - i0) = 8 \<and> min 8 (actual_NB - j0) = 8 \<longrightarrow>
           mk_block fl actual_MB actual_NB actual_KB A_packed B_packed ldc ii jj i0 j0 C
             = call_at ((ii + i0) * ldc + (jj + j0))
                 (\<lambda>Cblk. mk8x8_avx2_strided fl actual_KB (ptr_add A_packed (i0 * actual_KB))
                            (ptr_add B_packed j0) actual_NB Cblk ldc) C)
      \<and> (min 8 (actual_MB - i0) < 8 \<or> min 8 (actual_NB - j0) < 8 \<longrightarrow>
           mk_block fl actual_MB actual_NB actual_KB A_packed B_packed ldc ii jj i0 j0 C
             = call_at ((ii + i0) * ldc + (jj + j0))
                 (\<lambda>Cblk. mk_ref_strided fl (min 8 (actual_MB - i0)) (min 8 (actual_NB - j0))
                            actual_KB (ptr_add A_packed (i0 * actual_KB)) (ptr_add B_packed j0)
                            actual_NB Cblk ldc) C)
      \<and> (\<forall>p. p \<notin> block_region ldc ii jj i0 j0 (min 8 (actual_MB - i0)) (min 8 (actual_NB - j0)) \<longrightarrow>
           mk_block fl actual_MB actual_NB actual_KB A_packed B_packed ldc ii jj i0 j0 C p = C p)
      \<and> (\<forall>A' B' C'.
            (\<forall>q \<in> {0 ..< actual_MB * actual_KB}. A' q = A_packed q)
          \<and> (\<forall>q \<in> {0 ..< actual_KB * actual_NB}. B' q = B_packed q)
          \<and> (\<forall>p \<in> block_region ldc ii jj i0 j0 (min 8 (actual_MB - i0)) (min 8 (actual_NB - j0)).
                C' p = C p)
          \<longrightarrow> (\<forall>p \<in> block_region ldc ii jj i0 j0 (min 8 (actual_MB - i0)) (min 8 (actual_NB - j0)).
                 mk_block fl actual_MB actual_NB actual_KB A' B' ldc ii jj i0 j0 C' p
                   = mk_block fl actual_MB actual_NB actual_KB A_packed B_packed ldc ii jj i0 j0 C p)))"
proof (intro conjI ballI)
  show "mb \<noteq> 0 \<and> nb \<noteq> 0 \<and> int32 (mb * kb) \<and> int32 (kb * nb)
      \<and> posix_memalign (of_int (mb * kb) * 4) = Some A_panel
      \<and> posix_memalign (of_int (kb * nb) * 4) = Some B_panel
    \<longrightarrow> gemm_mk_avx2 fl openmp posix_memalign M N K A B C0 lda ldb ldc \<lparr>MB = mb, NB = nb, KB = kb\<rparr>
        = (case tiles_loop (tile_count M mb * tile_count N nb)
                  (mk_tile fl M N K A B lda ldb ldc mb nb kb (tile_count N nb))
                  (A_panel, B_panel, C0) of
             None \<Rightarrow> Diverges
           | Some Signed_Overflow \<Rightarrow> Undefined
           | Some (Completed (A_packed', B_packed', C')) \<Rightarrow> Returned C')"
    by (intro impI gemm_mk_avx2_tiles) simp_all
next
  show "mk_tile fl M N K A B lda ldb ldc mb nb kb nJ t w
     = kk_loop K kb (\<lambda>kk (A_packed, B_packed, C).
         let actual_MB = tile_iMax M mb nJ t - tile_ii mb nJ t;
             actual_NB = tile_jMax N nb nJ t - tile_jj nb nJ t;
             actual_KB = min (kk + kb) K - kk;
             A_packed' = pack_A_panel_mk actual_MB actual_KB
                           (ptr_add A (tile_ii mb nJ t * lda + kk)) lda A_packed;
             B_packed' = pack_B_panel_mk actual_KB actual_NB
                           (ptr_add B (kk * ldb + tile_jj nb nJ t)) ldb B_packed
         in (A_packed', B_packed',
             fold (\<lambda>i0. fold (mk_block fl actual_MB actual_NB actual_KB A_packed' B_packed' ldc
                                 (tile_ii mb nJ t) (tile_jj nb nJ t) i0)
                            (block_origins actual_NB))
                  (block_origins actual_MB) C)) 0 w"
    by (rule mk_tile_blocks)
next
  show "snd (for_step 8 actual_MB (\<lambda>i0 C.
          snd (for_step 8 actual_NB (\<lambda>j0 C.
            mk_block fl actual_MB actual_NB actual_KB A_packed B_packed ldc ii jj i0 j0 C) 0 C)) 0 C)
     = fold (\<lambda>i0. fold (mk_block fl actual_MB actual_NB actual_KB A_packed B_packed ldc ii jj i0)
                      (block_origins actual_NB)) (block_origins actual_MB) C"
    by (simp add: for_step_8_origins)
next
  fix i0 j0
  assume "i0 \<in> set (block_origins actual_MB)" "j0 \<in> set (block_origins actual_NB)"
  then have i0: "0 \<le> i0" "i0 < actual_MB" and j0: "0 \<le> j0" "j0 < actual_NB"
    by (simp_all add: block_origins_range)
  let ?mr = "min 8 (actual_MB - i0)" and ?nr = "min 8 (actual_NB - j0)"
  show "1 \<le> ?mr" "1 \<le> ?nr" using i0 j0 by simp_all
  show "?mr = 8 \<and> ?nr = 8 \<longrightarrow>
           mk_block fl actual_MB actual_NB actual_KB A_packed B_packed ldc ii jj i0 j0 C
             = call_at ((ii + i0) * ldc + (jj + j0))
                 (\<lambda>Cblk. mk8x8_avx2_strided fl actual_KB (ptr_add A_packed (i0 * actual_KB))
                            (ptr_add B_packed j0) actual_NB Cblk ldc) C"
    by (simp add: mk_block_def Let_def)
  show "?mr < 8 \<or> ?nr < 8 \<longrightarrow>
           mk_block fl actual_MB actual_NB actual_KB A_packed B_packed ldc ii jj i0 j0 C
             = call_at ((ii + i0) * ldc + (jj + j0))
                 (\<lambda>Cblk. mk_ref_strided fl ?mr ?nr
                            actual_KB (ptr_add A_packed (i0 * actual_KB)) (ptr_add B_packed j0)
                            actual_NB Cblk ldc) C"
    by (auto simp: mk_block_def Let_def)
  show "\<forall>p. p \<notin> block_region ldc ii jj i0 j0 ?mr ?nr \<longrightarrow>
           mk_block fl actual_MB actual_NB actual_KB A_packed B_packed ldc ii jj i0 j0 C p = C p"
  proof (intro allI impI)
    fix p assume "p \<notin> block_region ldc ii jj i0 j0 ?mr ?nr"
    then have "\<And>r c. 0 \<le> r \<Longrightarrow> r < ?mr \<Longrightarrow> 0 \<le> c \<Longrightarrow> c < ?nr
                 \<Longrightarrow> p \<noteq> (ii + i0 + r) * ldc + (jj + j0 + c)"
      unfolding block_region_iff by blast
    then show "mk_block fl actual_MB actual_NB actual_KB A_packed B_packed ldc ii jj i0 j0 C p = C p"
      by (rule mk_block_frame)
  qed
  show "\<forall>A' B' C'.
            (\<forall>q \<in> {0 ..< actual_MB * actual_KB}. A' q = A_packed q)
          \<and> (\<forall>q \<in> {0 ..< actual_KB * actual_NB}. B' q = B_packed q)
          \<and> (\<forall>p \<in> block_region ldc ii jj i0 j0 ?mr ?nr. C' p = C p)
          \<longrightarrow> (\<forall>p \<in> block_region ldc ii jj i0 j0 ?mr ?nr.
                 mk_block fl actual_MB actual_NB actual_KB A' B' ldc ii jj i0 j0 C' p
                   = mk_block fl actual_MB actual_NB actual_KB A_packed B_packed ldc ii jj i0 j0 C p)"
  proof (intro allI impI ballI)
    fix A' B' C' p
    assume agree: "(\<forall>q \<in> {0 ..< actual_MB * actual_KB}. A' q = A_packed q)
          \<and> (\<forall>q \<in> {0 ..< actual_KB * actual_NB}. B' q = B_packed q)
          \<and> (\<forall>p \<in> block_region ldc ii jj i0 j0 ?mr ?nr. C' p = C p)"
      and p: "p \<in> block_region ldc ii jj i0 j0 ?mr ?nr"
    obtain r c where rc: "0 \<le> r" "r < ?mr" "0 \<le> c" "c < ?nr"
      and pe: "p = (ii + i0 + r) * ldc + (jj + j0 + c)"
      using p unfolding block_region_iff by blast
    have A: "A' q = A_packed q" if "0 \<le> q" "q < actual_MB * actual_KB" for q
      using agree that by simp
    have B: "B' q = B_packed q" if "0 \<le> q" "q < actual_KB * actual_NB" for q
      using agree that by simp
    have C: "C' ((ii + i0 + r) * ldc + (jj + j0 + c)) = C ((ii + i0 + r) * ldc + (jj + j0 + c))"
      if "0 \<le> r" "r < ?mr" "0 \<le> c" "c < ?nr" for r c
    proof -
      have "(ii + i0 + r) * ldc + (jj + j0 + c) \<in> block_region ldc ii jj i0 j0 ?mr ?nr"
        unfolding block_region_iff using that by blast
      then show ?thesis using agree by blast
    qed
    show "mk_block fl actual_MB actual_NB actual_KB A' B' ldc ii jj i0 j0 C' p
        = mk_block fl actual_MB actual_NB actual_KB A_packed B_packed ldc ii jj i0 j0 C p"
      unfolding pe
    proof (rule mk_block_reads)
      show "0 \<le> i0" "i0 < actual_MB" "0 \<le> j0" "j0 < actual_NB" by fact+
      show "0 \<le> r" "r < ?mr" "0 \<le> c" "c < ?nr" by fact+
    qed (simp_all add: A B C)
  qed
qed


theorem vector_kernel_only_on_full_blocks_witness:
  "block_origins 10 = [0, 8] \<and> block_origins 8 = [0]
   \<and> mk_block exact_int 10 8 1 (\<lambda>p. p + 1) (\<lambda>p. 2) 8 0 0 0 0 (\<lambda>p. 5)
       = call_at 0 (\<lambda>Cblk. mk8x8_avx2_strided exact_int 1 (ptr_add (\<lambda>p. p + 1) 0)
                     (ptr_add (\<lambda>p. 2) 0) 8 Cblk 8) (\<lambda>p. 5)
   \<and> mk_block exact_int 10 8 1 (\<lambda>p. p + 1) (\<lambda>p. 2) 8 0 0 8 0 (\<lambda>p. 5)
       = call_at 64 (\<lambda>Cblk. mk_ref_strided exact_int 2 8 1 (ptr_add (\<lambda>p. p + 1) 8)
                      (ptr_add (\<lambda>p. 2) 0) 8 Cblk 8) (\<lambda>p. 5)
   \<and> 63 \<notin> block_region 8 0 0 8 0 2 8
   \<and> mk_block exact_int 10 8 1 (\<lambda>p. p + 1) (\<lambda>p. 2) 8 0 0 8 0 (\<lambda>p. 5) 63 = 5
   \<and> gemm_mk_avx2 exact_int True (\<lambda>bytes. Some (\<lambda>p. 0)) 10 8 1 (\<lambda>p. p + 1) (\<lambda>p. 2) (\<lambda>p. 5)
         1 8 8 \<lparr>MB = 16, NB = 8, KB = 1\<rparr>
       = (case tiles_loop (tile_count 10 16 * tile_count 8 8)
                 (mk_tile exact_int 10 8 1 (\<lambda>p. p + 1) (\<lambda>p. 2) 1 8 8 16 8 1 (tile_count 8 8))
                 (\<lambda>p. 0, \<lambda>p. 0, \<lambda>p. 5) of
            None \<Rightarrow> Diverges
          | Some Signed_Overflow \<Rightarrow> Undefined
          | Some (Completed (A_packed', B_packed', C')) \<Rightarrow> Returned C')"
proof -
  note T = vector_kernel_only_on_full_blocks [where actual_MB = 10 and actual_NB = 8
      and actual_KB = 1 and fl = exact_int and A_packed = "\<lambda>p. p + 1" and B_packed = "\<lambda>p. 2"
      and ldc = 8 and ii = 0 and jj = 0 and C = "\<lambda>p. 5"
      and mb = 16 and nb = 8 and kb = 1 and M = 10 and N = 8 and K = 1
      and posix_memalign = "\<lambda>bytes. Some (\<lambda>p. 0)" and A_panel = "\<lambda>p. 0" and B_panel = "\<lambda>p. 0"
      and openmp = True and A = "\<lambda>p. p + 1" and B = "\<lambda>p. 2" and ?C0.0 = "\<lambda>p. 5"
      and lda = 1 and ldb = 8]
  note T = T [THEN conjunct2, THEN conjunct2]
  have e: "gemm_mk_avx2 exact_int True (\<lambda>bytes. Some (\<lambda>p. 0)) 10 8 1 (\<lambda>p. p + 1) (\<lambda>p. 2) (\<lambda>p. 5)
         1 8 8 \<lparr>MB = 16, NB = 8, KB = 1\<rparr>
       = (case tiles_loop (tile_count 10 16 * tile_count 8 8)
                 (mk_tile exact_int 10 8 1 (\<lambda>p. p + 1) (\<lambda>p. 2) 1 8 8 16 8 1 (tile_count 8 8))
                 (\<lambda>p. 0, \<lambda>p. 0, \<lambda>p. 5) of
            None \<Rightarrow> Diverges
          | Some Signed_Overflow \<Rightarrow> Undefined
          | Some (Completed (A_packed', B_packed', C')) \<Rightarrow> Returned C')"
    using vector_kernel_only_on_full_blocks [where mb = 16 and nb = 8 and kb = 1 and M = 10
      and N = 8 and K = 1 and fl = exact_int and ldc = 8
      and posix_memalign = "\<lambda>bytes. Some (\<lambda>p. 0)" and A_panel = "\<lambda>p. 0" and B_panel = "\<lambda>p. 0"
      and openmp = True and A = "\<lambda>p. p + 1" and B = "\<lambda>p. 2" and ?C0.0 = "\<lambda>p. 5"
      and lda = 1 and ldb = 8, THEN conjunct1]
    by (simp add: int32_def)
  have o: "block_origins 10 = [0, 8]" "block_origins 8 = [0]"
    by (simp_all add: block_origins_def upt_rec)
  have m: "0 \<in> set (block_origins 10)" "8 \<in> set (block_origins 10)" "0 \<in> set (block_origins 8)"
    by (simp_all add: o)
  note T0 = T [THEN conjunct2, THEN bspec, OF m(1), THEN bspec, OF m(3)]
  note T8 = T [THEN conjunct2, THEN bspec, OF m(2), THEN bspec, OF m(3)]
  have a: "mk_block exact_int 10 8 1 (\<lambda>p. p + 1) (\<lambda>p. 2) 8 0 0 0 0 (\<lambda>p. 5)
       = call_at 0 (\<lambda>Cblk. mk8x8_avx2_strided exact_int 1 (ptr_add (\<lambda>p. p + 1) 0)
                     (ptr_add (\<lambda>p. 2) 0) 8 Cblk 8) (\<lambda>p. 5)"
    using T0 by simp
  have b: "mk_block exact_int 10 8 1 (\<lambda>p. p + 1) (\<lambda>p. 2) 8 0 0 8 0 (\<lambda>p. 5)
       = call_at 64 (\<lambda>Cblk. mk_ref_strided exact_int 2 8 1 (ptr_add (\<lambda>p. p + 1) 8)
                      (ptr_add (\<lambda>p. 2) 0) 8 Cblk 8) (\<lambda>p. 5)"
    using T8 by simp
  have c: "63 \<notin> block_region 8 0 0 8 0 2 8"
    unfolding block_region_iff by arith
  have "\<forall>p. p \<notin> block_region 8 0 0 8 0 2 8 \<longrightarrow>
          mk_block exact_int 10 8 1 (\<lambda>p. p + 1) (\<lambda>p. 2) 8 0 0 8 0 (\<lambda>p. 5) p = 5"
    using T8 [THEN conjunct2, THEN conjunct2, THEN conjunct2, THEN conjunct2, THEN conjunct1]
    by simp
  then have d: "mk_block exact_int 10 8 1 (\<lambda>p. p + 1) (\<lambda>p. 2) 8 0 0 8 0 (\<lambda>p. 5) 63 = 5"
    using c by blast
  show ?thesis using o a b c d e by simp
qed

section \<open>The tiled implementations against the naive product\<close>

subsection \<open>One row update\<close>

lemma vec_step_closed:
  "mm256_storeu_ps C p (mm256_fmadd_ps fl (mm256_set1_ps a) (mm256_loadu_ps B q) (mm256_loadu_ps C p))
     = (\<lambda>x. if p \<le> x \<and> x < p + 8 then fmadd fl a (B (q + (x - p))) (C x) else C x)"
proof
  fix x
  show "mm256_storeu_ps C p
          (mm256_fmadd_ps fl (mm256_set1_ps a) (mm256_loadu_ps B q) (mm256_loadu_ps C p)) x
      = (if p \<le> x \<and> x < p + 8 then fmadd fl a (B (q + (x - p))) (C x) else C x)"
  proof (cases "p \<le> x \<and> x < p + 8")
    case True
    then have l: "nat (x - p) < 8" by arith
    have i: "int (nat (x - p)) = x - p" using True by simp
    show ?thesis
      using True l
      by (simp add: mm256_storeu_ps_def mm256_fmadd_ps_def mm256_set1_ps_def mm256_loadu_ps_def i
          del: upt_Suc)
  next
    case False
    then show ?thesis by (auto simp: mm256_storeu_ps_def)
  qed
qed

lemma fma_row_fused:
  assumes "fused fl"
  shows "fma_row fl a B brow crow jj jMax C
       = (\<lambda>p. if crow + jj \<le> p \<and> p < crow + jMax
               then fadd fl (C p) (fmul fl a (B (brow + (p - crow)))) else C p)"
proof -
  let ?vec = "\<lambda>j C. mm256_storeu_ps C (crow + j)
       (mm256_fmadd_ps fl (mm256_set1_ps a) (mm256_loadu_ps B (brow + j)) (mm256_loadu_ps C (crow + j)))"
  let ?tail = "\<lambda>j C. C(crow + j := fadd fl (C (crow + j)) (fmul fl a (B (brow + j))))"
  let ?closed = "\<lambda>jj C p. if crow + jj \<le> p \<and> p < crow + jMax
               then fadd fl (C p) (fmul fl a (B (brow + (p - crow)))) else C p"
  have vec: "?vec j C = (\<lambda>p. if crow + j \<le> p \<and> p < crow + j + 8
               then fadd fl (C p) (fmul fl a (B (brow + (p - crow)))) else C p)" for j C
    using assms by (auto simp: vec_step_closed fused_def algebra_simps intro!: ext)
  have "(case for_step 8 (jMax - 8 + 1) ?vec jj C of (j, C1) \<Rightarrow> for_range j jMax ?tail C1)
          = ?closed jj C" for jj C
  proof (induction "nat (jMax - jj)" arbitrary: jj C rule: less_induct)
    case less
    show ?case
    proof (cases "jj < jMax - 8 + 1")
      case True
      then have "nat (jMax - (jj + 8)) < nat (jMax - jj)" by simp
      then have IH: "(case for_step 8 (jMax - 8 + 1) ?vec (jj + 8) (?vec jj C) of
              (j, C1) \<Rightarrow> for_range j jMax ?tail C1) = ?closed (jj + 8) (?vec jj C)"
        by (rule less.hyps)
      have "?closed (jj + 8) (?vec jj C) = ?closed jj C"
        unfolding vec using True by (intro ext) auto
      then show ?thesis
        using True IH by (simp add: for_step_continue)
    next
      case False
      then show ?thesis
        by (simp add: for_step_done scalar_row_fun)
    qed
  qed
  then show ?thesis by (simp add: fma_row_def Let_def)
qed


lemma fold_if_fixed:
  "fold (\<lambda>x c. if R then h x c else c) xs c = (if R then fold h xs c else c)"
  by (induction xs arbitrary: c) simp_all

lemma fused_rows:
  assumes "fused fl"
  shows "for_range kk kMax (\<lambda>k. fma_row fl (A (i * lda + k)) B (k * ldb) (i * ldc) jj jMax)
       = (\<lambda>C p. if i * ldc + jj \<le> p \<and> p < i * ldc + jMax
                 then dot_range fl A B lda ldb i (p - i * ldc) kk kMax (C p) else C p)"
proof (intro ext)
  fix C p
  have "for_range kk kMax (\<lambda>k. fma_row fl (A (i * lda + k)) B (k * ldb) (i * ldc) jj jMax) C p
      = fold (\<lambda>k c. if i * ldc + jj \<le> p \<and> p < i * ldc + jMax
                     then fadd fl c (fmul fl (A (i * lda + k)) (B (k * ldb + (p - i * ldc)))) else c)
          [kk..kMax - 1] (C p)"
    unfolding for_range_def fma_row_fused [OF assms]
    by (rule fold_pointwise [where R = "\<lambda>k p. i * ldc + jj \<le> p \<and> p < i * ldc + jMax"
          and h = "\<lambda>k p c. fadd fl c (fmul fl (A (i * lda + k)) (B (k * ldb + (p - i * ldc))))"])
  then show "for_range kk kMax (\<lambda>k. fma_row fl (A (i * lda + k)) B (k * ldb) (i * ldc) jj jMax) C p
      = (if i * ldc + jj \<le> p \<and> p < i * ldc + jMax
         then dot_range fl A B lda ldb i (p - i * ldc) kk kMax (C p) else C p)"
    by (simp add: fold_if_fixed dot_range_def)
qed

lemma blocked_chunk:
  assumes "fused fl"
  shows "for_range ii iMax (\<lambda>i.
           for_range kk kMax (\<lambda>k C.
             fma_row fl (A (i * lda + k)) B (k * ldb) (i * ldc) jj jMax C)) C
       = chunk_update fl A B lda ldb ldc ii iMax jj jMax kk kMax C"
  unfolding fused_rows [OF assms] chunk_update_def for_range_def
  by (intro ext) (rule fold_pointwise)

subsection \<open>Updates of sets of cells\<close>

lemma row_range_iff:
  fixes p :: int
  assumes "0 < ldc" "0 \<le> jj" "jMax \<le> ldc"
  shows "i * ldc + jj \<le> p \<and> p < i * ldc + jMax
         \<longleftrightarrow> i = p div ldc \<and> jj \<le> p mod ldc \<and> p mod ldc < jMax"
proof
  assume a: "i * ldc + jj \<le> p \<and> p < i * ldc + jMax"
  then have "i * ldc \<le> p \<and> p < i * ldc + ldc" using assms by linarith
  then have d: "p div ldc = i" using in_block_iff [OF assms(1), of i p] by simp
  have "p mod ldc = p - i * ldc"
    using mult_div_mod_eq [of ldc p] d by (simp add: algebra_simps)
  then show "i = p div ldc \<and> jj \<le> p mod ldc \<and> p mod ldc < jMax" using a d by simp
next
  assume a: "i = p div ldc \<and> jj \<le> p mod ldc \<and> p mod ldc < jMax"
  have "p = i * ldc + p mod ldc" using a mult_div_mod_eq [of ldc p] by (simp add: algebra_simps)
  then show "i * ldc + jj \<le> p \<and> p < i * ldc + jMax" using a by linarith
qed

lemma chunk_update_cells:
  assumes "0 < ldc" "0 \<le> jj" "jMax \<le> ldc"
  shows "chunk_update fl A B lda ldb ldc ii iMax jj jMax k0 k1 C
       = cell_update ldc ({ii..<iMax} \<times> {jj..<jMax}) (\<lambda>i j. dot_range fl A B lda ldb i j k0 k1) C"
proof
  fix p
  let ?R = "\<lambda>i. i * ldc + jj \<le> p \<and> p < i * ldc + jMax"
  let ?h = "\<lambda>i c. dot_range fl A B lda ldb i (p - i * ldc) k0 k1 c"
  note iff = row_range_iff [OF assms, of _ p]
  show "chunk_update fl A B lda ldb ldc ii iMax jj jMax k0 k1 C p
      = cell_update ldc ({ii..<iMax} \<times> {jj..<jMax}) (\<lambda>i j. dot_range fl A B lda ldb i j k0 k1) C p"
  proof (cases "(p div ldc, p mod ldc) \<in> {ii..<iMax} \<times> {jj..<jMax}")
    case True
    have "fold (\<lambda>i c. if ?R i then ?h i c else c) [ii..iMax - 1] (C p) = ?h (p div ldc) (C p)"
    proof (rule fold_if_one)
      show "distinct [ii..iMax - 1]" by simp
      show "p div ldc \<in> set [ii..iMax - 1]" using True by simp
      show "?R (p div ldc)" using True iff [of "p div ldc"] by simp
      fix x assume "x \<in> set [ii..iMax - 1]" "?R x"
      then show "x = p div ldc" using iff [of x] by simp
    qed
    moreover have "p - p div ldc * ldc = p mod ldc"
      using mult_div_mod_eq [of ldc p] by (simp add: algebra_simps)
    ultimately show ?thesis using True by (simp add: chunk_update_def cell_update_def)
  next
    case False
    have "fold (\<lambda>i c. if ?R i then ?h i c else c) [ii..iMax - 1] (C p) = C p"
    proof (rule fold_if_none)
      fix x assume "x \<in> set [ii..iMax - 1]"
      then show "\<not> ?R x" using False iff [of x] by auto
    qed
    then show ?thesis using False by (auto simp: chunk_update_def cell_update_def)
  qed
qed

lemma cell_update_empty: "cell_update ldc {} D C = C"
  by (simp add: cell_update_def)

lemma cell_update_disjoint:
  assumes "W \<inter> W' = {}"
  shows "cell_update ldc W D (cell_update ldc W' D C) = cell_update ldc (W \<union> W') D C"
  using assms by (intro ext) (auto simp: cell_update_def)

lemma cell_update_again:
  "cell_update ldc W D2 (cell_update ldc W D1 C) = cell_update ldc W (\<lambda>i j c. D2 i j (D1 i j c)) C"
  by (intro ext) (simp add: cell_update_def)

lemma cell_update_cong:
  assumes "\<And>i j c. (i, j) \<in> W \<Longrightarrow> D i j c = D' i j c"
  shows "cell_update ldc W D C = cell_update ldc W D' C"
  by (intro ext) (simp add: cell_update_def assms)

lemma fold_cell_update:
  assumes "distinct xs" and "\<And>x y. x \<in> set xs \<Longrightarrow> y \<in> set xs \<Longrightarrow> x \<noteq> y \<Longrightarrow> W x \<inter> W y = {}"
  shows "fold (\<lambda>x. cell_update ldc (W x) D) xs C = cell_update ldc (\<Union>x \<in> set xs. W x) D C"
  using assms
proof (induction xs arbitrary: C)
  case Nil
  then show ?case by (simp add: cell_update_empty)
next
  case (Cons x xs)
  have IH: "fold (\<lambda>x. cell_update ldc (W x) D) xs (cell_update ldc (W x) D C)
      = cell_update ldc (\<Union>x \<in> set xs. W x) D (cell_update ldc (W x) D C)"
    using Cons.prems by (intro Cons.IH) auto
  have "(\<Union>y \<in> set xs. W y) \<inter> W x = {}" using Cons.prems by auto
  then have "cell_update ldc (\<Union>x \<in> set xs. W x) D (cell_update ldc (W x) D C)
      = cell_update ldc ((\<Union>x \<in> set xs. W x) \<union> W x) D C"
    by (rule cell_update_disjoint)
  moreover have "(\<Union>y \<in> set (x # xs). W y) = (\<Union>x \<in> set xs. W x) \<union> W x" by auto
  ultimately show ?case using IH by simp
qed

lemma dot_range_append:
  assumes "k0 \<le> k1" "k1 \<le> k2"
  shows "dot_range fl A B lda ldb i j k1 k2 (dot_range fl A B lda ldb i j k0 k1 c)
       = dot_range fl A B lda ldb i j k0 k2 c"
proof -
  have "[k0..k2 - 1] = [k0..k1 - 1] @ [k1..k2 - 1]"
  proof (cases "k1 = k2")
    case True
    then show ?thesis by simp
  next
    case False
    then have "k1 \<le> k2 - 1" using assms by simp
    then show ?thesis using assms(1) by (rule upto_split1 [rotated])
  qed
  then show ?thesis by (simp add: dot_range_def)
qed

subsection \<open>The depth chunks of a tile\<close>

lemma kk_loop_chunks:
  assumes "0 < kb" "K + kb \<le> 2147483648" and init: "P 0 s"
    and step: "\<And>kk s. 0 \<le> kk \<Longrightarrow> kk < K \<Longrightarrow> P kk s \<Longrightarrow> P (min (kk + kb) K) (body kk s)"
  shows "\<exists>s'. kk_loop K kb body 0 s = Some (Completed s') \<and> P (max 0 K) s'"
proof -
  have "\<exists>s'. kk_loop K kb body kk s = Some (Completed s') \<and> P K s'"
    if "0 \<le> kk" "kk < K" "P kk s" for kk s
    using that
  proof (induction "nat (K - kk)" arbitrary: kk s rule: less_induct)
    case less
    have next_state: "P (min (kk + kb) K) (body kk s)" using less.prems by (rule step)
    have in_range: "int32 (kk + kb)" using assms(1,2) less.prems(1,2) by (rule kk_loop_in_range)
    show ?case
    proof (cases "kk + kb < K")
      case True
      then have "nat (K - (kk + kb)) < nat (K - kk)" "0 \<le> kk + kb"
        using assms(1) less.prems by simp_all
      moreover have "P (kk + kb) (body kk s)" using next_state True by (simp add: min_def)
      ultimately have "\<exists>s'. kk_loop K kb body (kk + kb) (body kk s) = Some (Completed s') \<and> P K s'"
        using True by (intro less.hyps)
      then show ?thesis using less.prems in_range by (simp add: kk_loop_continue)
    next
      case False
      then have "min (kk + kb) K = K" by simp
      then have "P K (body kk s)" using next_state by simp
      then show ?thesis
        using less.prems False in_range by (simp add: kk_loop_continue kk_loop_exit)
    qed
  qed
  from this [of 0 s] init show ?thesis
    by (cases "0 < K") (simp_all add: kk_loop_exit max_def)
qed

lemma tiles_loop_proj:
  assumes "\<And>t s. 0 \<le> t \<Longrightarrow> t < nTiles \<Longrightarrow>
             \<exists>s'. body t s = Some (Completed s') \<and> proj s' = g t (proj s)"
  shows "\<exists>s'. tiles_loop nTiles body s = Some (Completed s')
             \<and> proj s' = fold g [0..nTiles - 1] (proj s)"
proof -
  have "\<exists>s'. fold (\<lambda>t r. case r of Some (Completed s) \<Rightarrow> body t s | _ \<Rightarrow> r) ts (Some (Completed s))
               = Some (Completed s') \<and> proj s' = fold g ts (proj s)"
    if "set ts \<subseteq> {0..nTiles - 1}" for ts s
    using that
  proof (induction ts arbitrary: s)
    case Nil
    then show ?case by simp
  next
    case (Cons t ts)
    then have "0 \<le> t" "t < nTiles" by simp_all
    then obtain s1 where s1: "body t s = Some (Completed s1)" "proj s1 = g t (proj s)"
      using assms by blast
    from Cons have "set ts \<subseteq> {0..nTiles - 1}" by simp
    from Cons.IH [OF this, of s1] show ?case by (simp add: s1)
  qed
  then show ?thesis by (simp add: tiles_loop_def)
qed

lemma dot_range_empty: "k1 \<le> k0 \<Longrightarrow> dot_range fl A B lda ldb i j k0 k1 c = c"
  by (simp add: dot_range_def)

lemma cell_update_id: "(\<And>i j c. (i, j) \<in> W \<Longrightarrow> D i j c = c) \<Longrightarrow> cell_update ldc W D C = C"
  by (intro ext) (simp add: cell_update_def)

text \<open>The clamped extents of a tile in range.\<close>

lemma tile_cells_eq:
  "tile_cells M N mb nb t
     = {tile_ii mb (tile_count N nb) t ..< tile_iMax M mb (tile_count N nb) t}
       \<times> {tile_jj nb (tile_count N nb) t ..< tile_jMax N nb (tile_count N nb) t}"
  by (simp add: tile_cells_def Let_def)

lemma tile_cols_bounds:
  assumes "0 \<le> N" "0 < nb" "0 \<le> t" "0 < nJ"
  shows "0 \<le> tile_jj nb nJ t" and "tile_jMax N nb nJ t \<le> N"
proof -
  have "0 \<le> t mod nJ" using assms by simp
  then show "0 \<le> tile_jj nb nJ t" using assms by (simp add: tile_jj_def smod_nonneg)
  show "tile_jMax N nb nJ t \<le> N" by (simp add: tile_jMax_def)
qed

lemma blocked_tile_cells:
  assumes "fused fl" "0 < kb" "0 \<le> K" "0 < ldc" "0 \<le> tile_jj nb nJ t" "tile_jMax N nb nJ t \<le> ldc"
    and range: "K + kb \<le> 2147483648"
  shows "blocked_tile fl M N K A B lda ldb ldc mb nb kb nJ t C
       = Some (Completed (cell_update ldc
           ({tile_ii mb nJ t ..< tile_iMax M mb nJ t} \<times> {tile_jj nb nJ t ..< tile_jMax N nb nJ t})
           (\<lambda>i j. dot_range fl A B lda ldb i j 0 K) C))"
proof -
  let ?W = "{tile_ii mb nJ t ..< tile_iMax M mb nJ t} \<times> {tile_jj nb nJ t ..< tile_jMax N nb nJ t}"
  let ?S = "\<lambda>k. cell_update ldc ?W (\<lambda>i j. dot_range fl A B lda ldb i j 0 k) C"
  let ?body = "\<lambda>kk C. for_range (tile_ii mb nJ t) (tile_iMax M mb nJ t) (\<lambda>i.
             for_range kk (min (kk + kb) K) (\<lambda>k C.
               fma_row fl (A (i * lda + k)) B (k * ldb) (i * ldc)
                 (tile_jj nb nJ t) (tile_jMax N nb nJ t) C)) C"
  have step: "?body kk (?S kk) = ?S (min (kk + kb) K)" if "0 \<le> kk" "kk < K" for kk
  proof -
    have "?body kk (?S kk)
        = cell_update ldc ?W (\<lambda>i j. dot_range fl A B lda ldb i j kk (min (kk + kb) K)) (?S kk)"
      by (simp only: blocked_chunk [OF assms(1)] chunk_update_cells [OF assms(4-6)])
    also have "\<dots> = cell_update ldc ?W (\<lambda>i j c. dot_range fl A B lda ldb i j kk (min (kk + kb) K)
                        (dot_range fl A B lda ldb i j 0 kk c)) C"
      by (rule cell_update_again)
    also have "\<dots> = ?S (min (kk + kb) K)"
      using that assms(2) by (intro cell_update_cong dot_range_append) auto
    finally show ?thesis .
  qed
  have S0: "?S 0 = C" by (rule cell_update_id) (simp add: dot_range_empty)
  have "\<exists>s'. kk_loop K kb ?body 0 (?S 0) = Some (Completed s') \<and> s' = ?S (max 0 K)"
    using assms(2) range
  proof (rule kk_loop_chunks [where P = "\<lambda>k s. s = ?S k"])
    show "?S 0 = ?S 0" by (rule refl)
    fix kk :: int and s :: "'a mem"
    assume "0 \<le> kk" "kk < K" "s = ?S kk"
    then show "?body kk s = ?S (min (kk + kb) K)" by (simp only: step)
  qed
  then show ?thesis
    using assms(3) by (simp add: blocked_tile_def Let_def S0 max_def)
qed

subsection \<open>All tiles\<close>

lemma accumulated_dot_range:
  "accumulated_dot fl A B lda ldb i j K = dot_range fl A B lda ldb i j 0 K"
  by (intro ext) (simp add: accumulated_dot_def dot_range_def)

lemma gemm_naive_cells:
  assumes "0 < ldc" "N \<le> ldc"
  shows "gemm_naive fl M N K A B C lda ldb ldc
       = cell_update ldc ({0..<M} \<times> {0..<N}) (\<lambda>i j. dot_range fl A B lda ldb i j 0 K) C"
proof -
  have "gemm_naive fl M N K A B C lda ldb ldc = chunk_update fl A B lda ldb ldc 0 M 0 N 0 K C"
    unfolding gemm_naive_closed chunk_update_def accumulated_dot_range by (intro ext) simp
  then show ?thesis using assms by (simp add: chunk_update_cells)
qed

lemma upto_set_lessThan: "set [0..n - 1] = {0..<n::int}"
  by auto

lemma tiles_fold_cells:
  assumes "0 \<le> M" "0 \<le> N" "0 < mb" "0 < nb"
  shows "fold (\<lambda>t. cell_update ldc (tile_cells M N mb nb t) D)
           [0..tile_count M mb * tile_count N nb - 1] C
       = cell_update ldc ({0..<M} \<times> {0..<N}) D C"
proof -
  let ?nT = "tile_count M mb * tile_count N nb"
  have "fold (\<lambda>t. cell_update ldc (tile_cells M N mb nb t) D) [0..?nT - 1] C
      = cell_update ldc (\<Union>t \<in> set [0..?nT - 1]. tile_cells M N mb nb t) D C"
  proof (rule fold_cell_update)
    show "distinct [0..?nT - 1]" by simp
    fix x y assume "x \<in> set [0..?nT - 1]" "y \<in> set [0..?nT - 1]" "x \<noteq> y"
    then show "tile_cells M N mb nb x \<inter> tile_cells M N mb nb y = {}"
      by (intro tile_cells_partition(2) [OF assms]) auto
  qed
  then show ?thesis
    by (simp only: upto_set_lessThan tile_cells_partition(1) [OF assms])
qed

text \<open>
  What the tile loop of each tiled implementation must do to the output for the call to
  give the naive product: tile \<open>t\<close> adds all \<open>K\<close> products to its own cells.
\<close>

lemma tiles_loop_naive:
  assumes dims: "0 \<le> M" "0 < N" "0 < mb" "0 < nb" "N \<le> ldc"
    and body: "\<And>t s. 0 \<le> t \<Longrightarrow> t < tile_count M mb * tile_count N nb \<Longrightarrow>
      0 \<le> tile_jj nb (tile_count N nb) t \<Longrightarrow> tile_jMax N nb (tile_count N nb) t \<le> ldc \<Longrightarrow>
      \<exists>s'. body t s = Some (Completed s') \<and> proj s' = cell_update ldc
           ({tile_ii mb (tile_count N nb) t ..< tile_iMax M mb (tile_count N nb) t}
            \<times> {tile_jj nb (tile_count N nb) t ..< tile_jMax N nb (tile_count N nb) t})
           (\<lambda>i j. dot_range fl A B lda ldb i j 0 K) (proj s)"
  shows "\<exists>s'. tiles_loop (tile_count M mb * tile_count N nb) body s = Some (Completed s')
             \<and> proj s' = gemm_naive fl M N K A B (proj s) lda ldb ldc"
proof -
  let ?nJ = "tile_count N nb" and ?D = "\<lambda>i j. dot_range fl A B lda ldb i j 0 K"
  have N0: "0 \<le> N" using dims by simp
  have "N \<le> ?nJ * nb" using tile_count_bounds(2) [OF N0 dims(4)] .
  have nJ: "0 < ?nJ"
  proof (rule ccontr)
    assume "\<not> 0 < ?nJ"
    then have "?nJ * nb \<le> 0" using dims(4) by (simp add: mult_le_0_iff)
    then show False using \<open>N \<le> ?nJ * nb\<close> dims(2) by simp
  qed
  have b: "\<exists>s'. body t s = Some (Completed s') \<and> proj s' = cell_update ldc (tile_cells M N mb nb t) ?D (proj s)"
    if "0 \<le> t" "t < tile_count M mb * ?nJ" for t s
    unfolding tile_cells_eq
    using that tile_cols_bounds [OF N0 dims(4) that(1) nJ] dims(5)
    by (intro body) auto
  have "\<exists>s'. tiles_loop (tile_count M mb * ?nJ) body s = Some (Completed s')
      \<and> proj s' = fold (\<lambda>t. cell_update ldc (tile_cells M N mb nb t) ?D)
                [0..tile_count M mb * ?nJ - 1] (proj s)"
    by (rule tiles_loop_proj [where proj = proj
          and g = "\<lambda>t. cell_update ldc (tile_cells M N mb nb t) ?D"]) (rule b)
  then show ?thesis
    using dims by (simp add: tiles_fold_cells [OF dims(1) N0 dims(3,4)] gemm_naive_cells)
qed

lemma gemm_blocked_exact:
  assumes "fused fl" "0 \<le> M" "0 \<le> N" "0 \<le> K" "0 < mb" "0 < nb" "0 < kb" "N \<le> ldc"
    and range: "K + kb \<le> 2147483648"
  shows "gemm_blocked fl M N K A B C lda ldb ldc \<lparr>MB = mb, NB = nb, KB = kb\<rparr>
       = Returned (gemm_naive fl M N K A B C lda ldb ldc)"
proof (cases "N = 0")
  case True
  then have "gemm_naive fl M N K A B C lda ldb ldc = C"
    by (intro gemm_naive_zero_extent) simp
  moreover have "tiles_loop (tile_count M mb * tile_count N nb)
       (blocked_tile fl M N K A B lda ldb ldc mb nb kb (tile_count N nb)) C = Some (Completed C)"
    using True assms(5,6) by (simp add: tile_count_zero tiles_loop_empty)
  ultimately show ?thesis using assms(5,6) by (simp add: gemm_blocked_def Let_def)
next
  case False
  then have N: "0 < N" and ldc: "0 < ldc" using assms by simp_all
  have "\<exists>C'. tiles_loop (tile_count M mb * tile_count N nb)
       (blocked_tile fl M N K A B lda ldb ldc mb nb kb (tile_count N nb)) C = Some (Completed C')
      \<and> C' = gemm_naive fl M N K A B C lda ldb ldc"
    using assms(2) N assms(5,6,8)
    by (rule tiles_loop_naive [where proj = "\<lambda>C. C"])
      (simp add: blocked_tile_cells [OF assms(1,7,4) ldc _ _ range])
  then show ?thesis using assms(5,6) by (auto simp: gemm_blocked_def Let_def)
qed

subsection \<open>Kernels that run on a view\<close>

lemma call_at_cell_update:
  assumes "0 < ldc" "0 \<le> c" "0 \<le> j0" "d + j0 \<le> ldc"
  shows "call_at (i0 * ldc + j0) (cell_update ldc ({a..<b} \<times> {c..<d}) D) C
       = cell_update ldc ({a + i0..<b + i0} \<times> {c + j0..<d + j0}) (\<lambda>i j. D (i - i0) (j - j0)) C"
proof
  fix p
  let ?q = "p - (i0 * ldc + j0)"
  have split: "?q div ldc = p div ldc - i0 \<and> ?q mod ldc = p mod ldc - j0"
    if "j0 \<le> p mod ldc" 
  proof -
    have "?q = (p div ldc - i0) * ldc + (p mod ldc - j0)"
      using mult_div_mod_eq [of ldc p] by (simp add: algebra_simps)
    moreover have "0 \<le> p mod ldc - j0" "p mod ldc - j0 < ldc"
      using that assms pos_mod_bound [of ldc p] by linarith+
    ultimately show ?thesis
      using int_div_pos_eq [of ?q ldc "p div ldc - i0" "p mod ldc - j0"]
        int_mod_pos_eq [of ?q ldc "p div ldc - i0" "p mod ldc - j0"]
      by (simp add: algebra_simps)
  qed
  have low: "d \<le> ?q mod ldc" if "p mod ldc < j0"
  proof (cases "j0 \<le> ldc")
    case True
    have "?q = (p div ldc - i0 - 1) * ldc + (p mod ldc - j0 + ldc)"
      using mult_div_mod_eq [of ldc p] by (simp add: algebra_simps)
    moreover have "0 \<le> p mod ldc - j0 + ldc" "p mod ldc - j0 + ldc < ldc"
      using that True assms pos_mod_sign [of ldc p] by linarith+
    ultimately have "?q mod ldc = p mod ldc - j0 + ldc"
      using int_mod_pos_eq [of ?q ldc "p div ldc - i0 - 1" "p mod ldc - j0 + ldc"]
      by (simp add: algebra_simps)
    then show ?thesis using assms pos_mod_sign [of ldc p] by linarith
  next
    case False
    then show ?thesis using assms pos_mod_sign [of ldc ?q] by linarith
  qed
  show "call_at (i0 * ldc + j0) (cell_update ldc ({a..<b} \<times> {c..<d}) D) C p
      = cell_update ldc ({a + i0..<b + i0} \<times> {c + j0..<d + j0}) (\<lambda>i j. D (i - i0) (j - j0)) C p"
  proof (cases "j0 \<le> p mod ldc")
    case True
    show ?thesis
      using split [OF True]
      by (auto simp: call_at_apply cell_update_def ptr_add_def)
  next
    case False
    then have "p mod ldc < j0" by simp
    then show ?thesis
      using low assms
      by (auto simp: call_at_apply cell_update_def ptr_add_def)
  qed
qed

lemma upto_shift: "[a + d..b + d] = map (\<lambda>k. k + d) [a..b::int]"
proof (induction "nat (b - a + 1)" arbitrary: a)
  case 0
  then show ?case by simp
next
  case (Suc n)
  then have le: "a \<le> b" and n: "n = nat (b - (a + 1) + 1)" by simp_all
  have "[a + 1 + d..b + d] = map (\<lambda>k. k + d) [a + 1..b]" by (rule Suc.hyps(1) [OF n])
  then show ?case using le by (simp add: upto_rec1 [of a b] upto_rec1 [of "a + d" "b + d"] add.commute add.left_commute)
qed

lemma dot_range_shift:
  assumes "\<And>k. 0 \<le> k \<Longrightarrow> k < n \<Longrightarrow> A' (i * lda' + k) = A (i2 * lda + (kk + k))"
    and "\<And>k. 0 \<le> k \<Longrightarrow> k < n \<Longrightarrow> B' (k * ldb' + j) = B ((kk + k) * ldb + j2)"
  shows "dot_range fl A' B' lda' ldb' i j 0 n c = dot_range fl A B lda ldb i2 j2 kk (kk + n) c"
proof -
  have "[kk..kk + n - 1] = map (\<lambda>k. k + kk) [0..n - 1]"
    using upto_shift [of 0 kk "n - 1"] by (simp add: algebra_simps)
  then have "dot_range fl A B lda ldb i2 j2 kk (kk + n) c
      = fold (\<lambda>k c. fadd fl c (fmul fl (A (i2 * lda + (kk + k))) (B ((kk + k) * ldb + j2))))
          [0..n - 1] c"
    by (simp add: dot_range_def fold_map comp_def add.commute)
  also have "\<dots> = dot_range fl A' B' lda' ldb' i j 0 n c"
    unfolding dot_range_def by (rule fold_cong) (auto simp: assms)
  finally show ?thesis by simp
qed

lemma packed_chunk:
  assumes "fused fl" "0 < ldc" "0 \<le> jj" "jMax \<le> ldc"
  shows "call_at (ii * ldc + jj)
           (\<lambda>Ct. micro_kernel_packed fl (iMax - ii) (jMax - jj) (kMax - kk)
                    (pack_A_panel (iMax - ii) (kMax - kk) (ptr_add A (ii * lda + kk)) lda A_packed)
                    (pack_B_panel (kMax - kk) (jMax - jj) (ptr_add B (kk * ldb + jj)) ldb B_packed)
                    Ct ldc) C
       = cell_update ldc ({ii..<iMax} \<times> {jj..<jMax}) (\<lambda>i j. dot_range fl A B lda ldb i j kk kMax) C"
proof -
  let ?Ap = "pack_A_panel (iMax - ii) (kMax - kk) (ptr_add A (ii * lda + kk)) lda A_packed"
  let ?Bp = "pack_A_panel (kMax - kk) (jMax - jj) (ptr_add B (kk * ldb + jj)) ldb B_packed"
  let ?D = "\<lambda>i j. dot_range fl ?Ap ?Bp (kMax - kk) (jMax - jj) i j 0 (kMax - kk)"
  have width: "jMax - jj \<le> ldc" "jMax - jj + jj \<le> ldc" using assms by simp_all
  have kernel: "(\<lambda>Ct. micro_kernel_packed fl (iMax - ii) (jMax - jj) (kMax - kk) ?Ap ?Bp Ct ldc)
      = cell_update ldc ({0..<iMax - ii} \<times> {0..<jMax - jj}) ?D"
    unfolding micro_kernel_packed_def blocked_chunk [OF assms(1)]
    by (intro ext) (simp only: chunk_update_cells [OF assms(2) order_refl width(1)])
  have "call_at (ii * ldc + jj)
          (\<lambda>Ct. micro_kernel_packed fl (iMax - ii) (jMax - jj) (kMax - kk) ?Ap ?Bp Ct ldc) C
      = cell_update ldc ({0 + ii..<iMax - ii + ii} \<times> {0 + jj..<jMax - jj + jj})
          (\<lambda>i j. ?D (i - ii) (j - jj)) C"
    unfolding kernel by (rule call_at_cell_update [OF assms(2) order_refl assms(3) width(2)])
  also have "\<dots> = cell_update ldc ({ii..<iMax} \<times> {jj..<jMax})
                     (\<lambda>i j. dot_range fl A B lda ldb i j kk (kk + (kMax - kk))) C"
  proof (simp only: add_0 diff_add_cancel, rule cell_update_cong)
    fix i j c assume "(i, j) \<in> {ii..<iMax} \<times> {jj..<jMax}"
    then have i: "0 \<le> i - ii" "i - ii < iMax - ii" and j: "0 \<le> j - jj" "j - jj < jMax - jj"
      by simp_all
    show "?D (i - ii) (j - jj) c = dot_range fl A B lda ldb i j kk (kk + (kMax - kk)) c"
    proof (rule dot_range_shift)
      fix k :: int assume k: "0 \<le> k" "k < kMax - kk"
      show "?Ap ((i - ii) * (kMax - kk) + k) = A (i * lda + (kk + k))"
        unfolding pack_A_panel_copies [OF i k] by (simp add: ptr_add_def algebra_simps)
      show "?Bp (k * (jMax - jj) + (j - jj)) = B ((kk + k) * ldb + j)"
        unfolding pack_A_panel_copies [OF k j] by (simp add: ptr_add_def algebra_simps)
    qed
  qed
  finally show ?thesis by (simp add: pack_B_panel_eq)
qed

lemma packed_tile_cells:
  assumes "fused fl" "0 < kb" "0 \<le> K" "0 < ldc" "0 \<le> tile_jj nb nJ t" "tile_jMax N nb nJ t \<le> ldc"
    and range: "K + kb \<le> 2147483648"
  shows "\<exists>w'. packed_tile fl M N K A B lda ldb ldc mb nb kb nJ t w = Some (Completed w')
           \<and> snd (snd w') = cell_update ldc
               ({tile_ii mb nJ t ..< tile_iMax M mb nJ t} \<times> {tile_jj nb nJ t ..< tile_jMax N nb nJ t})
               (\<lambda>i j. dot_range fl A B lda ldb i j 0 K) (snd (snd w))"
proof -
  let ?ii = "tile_ii mb nJ t" and ?iMax = "tile_iMax M mb nJ t"
  let ?jj = "tile_jj nb nJ t" and ?jMax = "tile_jMax N nb nJ t"
  let ?W = "{?ii ..< ?iMax} \<times> {?jj ..< ?jMax}"
  let ?P = "\<lambda>k s. snd (snd s) = cell_update ldc ?W (\<lambda>i j. dot_range fl A B lda ldb i j 0 k) (snd (snd w))"
  let ?body = "\<lambda>kk (A_packed, B_packed, C).
           let kMax = min (kk + kb) K;
               actual_KB = kMax - kk;
               A_packed' = pack_A_panel (?iMax - ?ii) actual_KB (ptr_add A (?ii * lda + kk)) lda A_packed;
               B_packed' = pack_B_panel actual_KB (?jMax - ?jj) (ptr_add B (kk * ldb + ?jj)) ldb B_packed;
               C' = call_at (?ii * ldc + ?jj)
                      (\<lambda>Ct. micro_kernel_packed fl (?iMax - ?ii) (?jMax - ?jj) actual_KB
                               A_packed' B_packed' Ct ldc) C
           in (A_packed', B_packed', C')"
  have step: "?P (min (kk + kb) K) (?body kk s)" if "0 \<le> kk" "kk < K" "?P kk s" for kk s
  proof -
    obtain Ap Bp C1 where s: "s = (Ap, Bp, C1)" by (cases s)
    have "snd (snd (?body kk s))
        = cell_update ldc ?W (\<lambda>i j. dot_range fl A B lda ldb i j kk (min (kk + kb) K)) C1"
      unfolding s Let_def prod.case snd_conv by (rule packed_chunk [OF assms(1,4-6)])
    also have "\<dots> = cell_update ldc ?W (\<lambda>i j c. dot_range fl A B lda ldb i j kk (min (kk + kb) K)
                        (dot_range fl A B lda ldb i j 0 kk c)) (snd (snd w))"
      using that(3) unfolding s snd_conv by (simp only: cell_update_again)
    also have "\<dots> = cell_update ldc ?W (\<lambda>i j. dot_range fl A B lda ldb i j 0 (min (kk + kb) K)) (snd (snd w))"
      using that assms(2) by (intro cell_update_cong dot_range_append) auto
    finally show ?thesis .
  qed
  have init: "?P 0 w" by (rule cell_update_id [symmetric]) (simp add: dot_range_empty)
  have K: "max 0 K = K" using assms(3) by simp
  have "\<exists>w'. kk_loop K kb ?body 0 w = Some (Completed w') \<and> ?P (max 0 K) w'"
    using assms(2) range init step by (rule kk_loop_chunks [where P = ?P])
  then show ?thesis
    unfolding packed_tile_def Let_def K .
qed

lemma gemm_packed_exact:
  assumes "fused fl" "0 \<le> M" "0 \<le> N" "0 \<le> K" "0 < mb" "0 < nb" "0 < kb" "N \<le> ldc"
    and range: "K + kb \<le> 2147483648" "int32 (mb * kb)" "int32 (kb * nb)"
    and alloc: "posix_memalign (of_int (mb * kb) * 4) = Some A_packed"
               "posix_memalign (of_int (kb * nb) * 4) = Some B_packed"
  shows "gemm_packed fl openmp posix_memalign M N K A B C lda ldb ldc \<lparr>MB = mb, NB = nb, KB = kb\<rparr>
       = Returned (gemm_naive fl M N K A B C lda ldb ldc)"
proof -
  have "\<exists>Ap Bp. tiles_loop (tile_count M mb * tile_count N nb)
       (packed_tile fl M N K A B lda ldb ldc mb nb kb (tile_count N nb)) (A_packed, B_packed, C)
      = Some (Completed (Ap, Bp, gemm_naive fl M N K A B C lda ldb ldc))"
  proof (cases "N = 0")
    case True
    then have "gemm_naive fl M N K A B C lda ldb ldc = C"
      by (intro gemm_naive_zero_extent) simp
    then show ?thesis
      using True assms(5,6) by (simp add: tile_count_zero tiles_loop_empty)
  next
    case False
    then have N: "0 < N" and ldc: "0 < ldc" using assms by simp_all
    have "\<exists>w'. tiles_loop (tile_count M mb * tile_count N nb)
         (packed_tile fl M N K A B lda ldb ldc mb nb kb (tile_count N nb)) (A_packed, B_packed, C)
           = Some (Completed w')
        \<and> snd (snd w') = gemm_naive fl M N K A B (snd (snd (A_packed, B_packed, C))) lda ldb ldc"
      using assms(2) N assms(5,6,8)
      by (rule tiles_loop_naive [where proj = "\<lambda>w. snd (snd w)"])
        (rule packed_tile_cells [OF assms(1,7,4) ldc _ _ range(1)])
    then show ?thesis by (metis prod.collapse snd_conv)
  qed
  then show ?thesis
    using assms(5,6) range(2,3) alloc
    by (auto simp: gemm_packed_def Let_def alloc_aligned_panel_def omp_parallel_def)
qed

subsection \<open>The 8x8 kernel\<close>

lemma dot_range_last:
  assumes "k0 \<le> k"
  shows "dot_range fl A B lda ldb i j k0 (k + 1) c
       = fadd fl (dot_range fl A B lda ldb i j k0 k c) (fmul fl (A (i * lda + k)) (B (k * ldb + j)))"
  using assms by (simp add: dot_range_def upto_rec2)

lemma acc_after_start: "mk8x8_load_C C ldc = acc_after fl KC A B ldb C ldc 0"
  by (simp add: mk8x8_load_C_def acc_after_def mm256_loadu_ps_def dot_range_empty)

lemma acc_after_step:
  assumes "fused fl" "0 \<le> k"
  shows "mk8x8_step fl KC A (mm256_loadu_ps B (k * ldb)) k (acc_after fl KC A B ldb C ldc k)
       = acc_after fl KC A B ldb C ldc (k + 1)"
proof -
  have lane: "mm256_fmadd_ps fl (mm256_broadcast_ss (A (int r * KC + k))) (mm256_loadu_ps B (k * ldb))
                (acc_after fl KC A B ldb C ldc k ! r)
      = map (\<lambda>l. dot_range fl A B KC ldb (int r) (int l) 0 (k + 1) (C (int r * ldc + int l))) [0..<8]"
    if "r < 8" for r
  proof -
    have "acc_after fl KC A B ldb C ldc k ! r
        = map (\<lambda>l. dot_range fl A B KC ldb (int r) (int l) 0 k (C (int r * ldc + int l))) [0..<8]"
      using that by (simp add: acc_after_def)
    then show ?thesis
      using assms unfolding mm256_fmadd_ps_def mm256_broadcast_ss_def mm256_loadu_ps_def fused_def
      by (intro map_cong refl) (simp add: dot_range_last)
  qed
  show ?thesis
    unfolding mk8x8_step_def
    by (subst acc_after_def [of fl KC A B ldb C ldc "k + 1"]) (intro map_cong refl, simp add: lane)
qed

lemma acc_after_tail:
  assumes "fused fl" "0 \<le> k"
  shows "for_range k KC (\<lambda>k acc. mk8x8_step fl KC A (mm256_loadu_ps B (k * ldb)) k acc)
           (acc_after fl KC A B ldb C ldc k)
       = acc_after fl KC A B ldb C ldc (max k KC)"
  using assms(2)
proof (induction "nat (KC - k)" arbitrary: k)
  case 0
  then show ?case by (simp add: for_range_empty max_def)
next
  case (Suc n)
  then have lt: "k < KC" and n: "n = nat (KC - (k + 1))" and k1: "0 \<le> k + 1" by simp_all
  show ?case
    using Suc.hyps(1) [OF n k1] lt
    by (simp add: for_range_first [OF lt] acc_after_step [OF assms(1) Suc.prems] max_def)
qed

lemma acc_after_loop:
  assumes "fused fl" "0 \<le> k"
  shows "(case for_step 4 (KC - 4 + 1) (\<lambda>k acc.
              mk8x8_step fl KC A (mm256_loadu_ps B ((k + 3) * ldb)) (k + 3)
               (mk8x8_step fl KC A (mm256_loadu_ps B ((k + 2) * ldb)) (k + 2)
                 (mk8x8_step fl KC A (mm256_loadu_ps B ((k + 1) * ldb)) (k + 1)
                   (mk8x8_step fl KC A (mm256_loadu_ps B ((k + 0) * ldb)) (k + 0) acc))))
              k (acc_after fl KC A B ldb C ldc k) of
          (k', acc1) \<Rightarrow> for_range k' KC (\<lambda>k acc. mk8x8_step fl KC A (mm256_loadu_ps B (k * ldb)) k acc) acc1)
       = acc_after fl KC A B ldb C ldc (max k KC)"
  using assms(2)
proof (induction "nat (KC - k)" arbitrary: k rule: less_induct)
  case less
  let ?body = "\<lambda>k acc.
              mk8x8_step fl KC A (mm256_loadu_ps B ((k + 3) * ldb)) (k + 3)
               (mk8x8_step fl KC A (mm256_loadu_ps B ((k + 2) * ldb)) (k + 2)
                 (mk8x8_step fl KC A (mm256_loadu_ps B ((k + 1) * ldb)) (k + 1)
                   (mk8x8_step fl KC A (mm256_loadu_ps B ((k + 0) * ldb)) (k + 0) acc)))"
  show ?case
  proof (cases "k < KC - 4 + 1")
    case True
    have four: "?body k (acc_after fl KC A B ldb C ldc k) = acc_after fl KC A B ldb C ldc (k + 4)"
    proof -
      have "mk8x8_step fl KC A (mm256_loadu_ps B ((k + 0) * ldb)) (k + 0) (acc_after fl KC A B ldb C ldc k)
          = acc_after fl KC A B ldb C ldc (k + 1)"
        using acc_after_step [OF assms(1) less.prems] by simp
      moreover have "mk8x8_step fl KC A (mm256_loadu_ps B ((k + 1) * ldb)) (k + 1)
            (acc_after fl KC A B ldb C ldc (k + 1)) = acc_after fl KC A B ldb C ldc (k + 2)"
        using acc_after_step [OF assms(1), of "k + 1"] less.prems by (simp add: add.assoc)
      moreover have "mk8x8_step fl KC A (mm256_loadu_ps B ((k + 2) * ldb)) (k + 2)
            (acc_after fl KC A B ldb C ldc (k + 2)) = acc_after fl KC A B ldb C ldc (k + 3)"
        using acc_after_step [OF assms(1), of "k + 2"] less.prems by (simp add: add.assoc)
      moreover have "mk8x8_step fl KC A (mm256_loadu_ps B ((k + 3) * ldb)) (k + 3)
            (acc_after fl KC A B ldb C ldc (k + 3)) = acc_after fl KC A B ldb C ldc (k + 4)"
        using acc_after_step [OF assms(1), of "k + 3"] less.prems by (simp add: add.assoc)
      ultimately show ?thesis by (simp only:)
    qed
    have cont: "for_step 4 (KC - 4 + 1) ?body k (acc_after fl KC A B ldb C ldc k)
        = for_step 4 (KC - 4 + 1) ?body (k + 4) (acc_after fl KC A B ldb C ldc (k + 4))"
      using for_step_continue [of 4 k "KC - 4 + 1" ?body] True by (simp only: four)
    have mx: "max (k + 4) KC = max k KC" using True by simp
    have "nat (KC - (k + 4)) < nat (KC - k)" "0 \<le> k + 4"
      using True less.prems by simp_all
    then show ?thesis
      unfolding cont mx [symmetric] by (rule less.hyps)
  next
    case False
    have stop: "for_step 4 (KC - 4 + 1) ?body k (acc_after fl KC A B ldb C ldc k)
        = (k, acc_after fl KC A B ldb C ldc k)"
      using False by (intro for_step_done) simp
    show ?thesis
      unfolding stop prod.case by (rule acc_after_tail [OF assms(1) less.prems])
  qed
qed

lemma mk8x8_avx2_strided_cells:
  assumes "fused fl" "8 \<le> ldc"
  shows "mk8x8_avx2_strided fl KC A B ldb C ldc
       = cell_update ldc ({0..<8} \<times> {0..<8}) (\<lambda>r c. dot_range fl A B KC ldb r c 0 KC) C"
proof
  fix p
  have ldc: "0 < ldc" using assms(2) by simp
  let ?acc = "acc_after fl KC A B ldb C ldc (max 0 KC)"
  let ?R = "\<lambda>r. int r * ldc \<le> p \<and> p < int r * ldc + 8"
  have run: "mk8x8_avx2_strided fl KC A B ldb C ldc = mk8x8_store_C C ldc ?acc"
    unfolding mk8x8_avx2_strided_def Let_def acc_after_start [of C ldc fl KC A B ldb]
    using acc_after_loop [OF assms(1) order_refl, of KC A B ldb C ldc]
    by (simp add: split_def)
  have iff: "?R r \<longleftrightarrow> int r = p div ldc \<and> p mod ldc < 8" for r
    using row_range_iff [OF ldc order_refl assms(2), of "int r" p] ldc by simp
  have cell: "?acc ! r ! nat (p - int r * ldc) = dot_range fl A B KC ldb (p div ldc) (p mod ldc) 0 KC (C p)"
    if "r < 8" "?R r" for r
  proof -
    have r: "int r = p div ldc" and m: "p mod ldc < 8" using that(2) iff by simp_all
    have off: "p - int r * ldc = p mod ldc" unfolding r by (simp add: minus_div_mult_eq_mod)
    have l: "nat (p mod ldc) < 8" "int (nat (p mod ldc)) = p mod ldc" using m ldc by simp_all
    have "dot_range fl A B KC ldb (p div ldc) (p mod ldc) 0 (max 0 KC) (C p)
        = dot_range fl A B KC ldb (p div ldc) (p mod ldc) 0 KC (C p)"
      by (cases "0 \<le> KC") (simp_all add: max_def dot_range_empty)
    moreover have "int r * ldc + p mod ldc = p" using off by simp
    ultimately show ?thesis
      using that(1) l by (simp add: acc_after_def off r [symmetric])
  qed
  show "mk8x8_avx2_strided fl KC A B ldb C ldc p
      = cell_update ldc ({0..<8} \<times> {0..<8}) (\<lambda>r c. dot_range fl A B KC ldb r c 0 KC) C p"
  proof (cases "0 \<le> p div ldc \<and> p div ldc < 8 \<and> p mod ldc < 8")
    case True
    let ?r = "nat (p div ldc)"
    have "?r < 8" using True by arith
    then have r: "?r \<in> set [0..<8]" "?R ?r" using True iff [of ?r] by simp_all
    have "fold (\<lambda>r c. if ?R r then ?acc ! r ! nat (p - int r * ldc) else c) [0..<8] (C p)
        = ?acc ! ?r ! nat (p - int ?r * ldc)"
    proof (rule fold_if_one [where h = "\<lambda>r c. ?acc ! r ! nat (p - int r * ldc)"])
      show "distinct [0..<8::nat]" by simp
      show "?r \<in> set [0..<8]" by (rule r)
      show "?R ?r" by (rule r)
      fix y assume "?R y"
      then have "int y = p div ldc" using iff by simp
      then show "y = ?r" by simp
    qed
    then show ?thesis
      using True cell [of ?r] r ldc
      by (simp add: run mk8x8_store_C_closed cell_update_def)
  next
    case False
    have "fold (\<lambda>r c. if ?R r then ?acc ! r ! nat (p - int r * ldc) else c) [0..<8] (C p) = C p"
    proof (rule fold_if_none)
      fix r assume "r \<in> set [0..<8::nat]"
      then show "\<not> ?R r" using False iff [of r] by auto
    qed
    then show ?thesis
      using False ldc by (auto simp: run mk8x8_store_C_closed cell_update_def)
  qed
qed

subsection \<open>The 8x8 sub-blocks of a tile\<close>

lemma mk_block_cells:
  assumes "fused fl" "0 < ldc" "0 \<le> jj" "jj + actual_NB \<le> ldc" "0 \<le> j0" "j0 < actual_NB"
  shows "mk_block fl actual_MB actual_NB actual_KB A_packed B_packed ldc ii jj i0 j0 C
       = cell_update ldc
           ({ii + i0..<ii + i0 + min 8 (actual_MB - i0)} \<times> {jj + j0..<jj + j0 + min 8 (actual_NB - j0)})
           (\<lambda>i j. dot_range fl A_packed B_packed actual_KB actual_NB (i - ii) (j - jj) 0 actual_KB) C"
proof -
  let ?mr = "min 8 (actual_MB - i0)" and ?nr = "min 8 (actual_NB - j0)"
  let ?Ab = "ptr_add A_packed (i0 * actual_KB)" and ?Bb = "ptr_add B_packed j0"
  let ?D = "\<lambda>r c. dot_range fl ?Ab ?Bb actual_KB actual_NB r c 0 actual_KB"
  have nr: "?nr \<le> ldc" "?nr + (jj + j0) \<le> ldc" "0 \<le> jj + j0" using assms by simp_all
  have kernel: "mk_block fl actual_MB actual_NB actual_KB A_packed B_packed ldc ii jj i0 j0 C
      = call_at ((ii + i0) * ldc + (jj + j0)) (cell_update ldc ({0..<?mr} \<times> {0..<?nr}) ?D) C"
  proof (cases "i0 + 8 \<le> actual_MB \<and> j0 + 8 \<le> actual_NB")
    case True
    then have full: "?mr = 8" "?nr = 8" by simp_all
    have "8 \<le> ldc" using nr(1) full by simp
    then have "(\<lambda>Cblk. mk8x8_avx2_strided fl actual_KB ?Ab ?Bb actual_NB Cblk ldc)
        = cell_update ldc ({0..<?mr} \<times> {0..<?nr}) ?D"
      unfolding full by (intro ext mk8x8_avx2_strided_cells assms(1))
    then show ?thesis using True by (simp only: mk_block_vec)
  next
    case False
    then have part: "actual_MB - i0 < 8 \<or> actual_NB - j0 < 8" by auto
    have "(\<lambda>Cblk. mk_ref_strided fl ?mr ?nr actual_KB ?Ab ?Bb actual_NB Cblk ldc)
        = cell_update ldc ({0..<?mr} \<times> {0..<?nr}) ?D"
      unfolding mk_ref_strided_naive by (intro ext gemm_naive_cells assms(2) nr(1))
    then show ?thesis by (simp only: mk_block_ref [OF part])
  qed
  have "call_at ((ii + i0) * ldc + (jj + j0)) (cell_update ldc ({0..<?mr} \<times> {0..<?nr}) ?D) C
      = cell_update ldc ({0 + (ii + i0)..<?mr + (ii + i0)} \<times> {0 + (jj + j0)..<?nr + (jj + j0)})
          (\<lambda>i j. ?D (i - (ii + i0)) (j - (jj + j0))) C"
    by (rule call_at_cell_update [OF assms(2) order_refl nr(3,2)])
  also have "\<dots> = cell_update ldc ({0 + (ii + i0)..<?mr + (ii + i0)} \<times> {0 + (jj + j0)..<?nr + (jj + j0)})
          (\<lambda>i j. dot_range fl A_packed B_packed actual_KB actual_NB (i - ii) (j - jj) 0 (0 + actual_KB)) C"
    by (rule cell_update_cong, rule dot_range_shift) (simp_all add: ptr_add_def algebra_simps)
  finally show ?thesis unfolding kernel by (simp add: add.commute)
qed

lemma block_intervals:
  shows "(\<Union>i0 \<in> set (block_origins n). {a + i0..<a + i0 + min 8 (n - i0)}) = {a..<a + n}"
    and "i0 \<in> set (block_origins n) \<Longrightarrow> i1 \<in> set (block_origins n) \<Longrightarrow> i0 \<noteq> i1 \<Longrightarrow>
         {a + i0..<a + i0 + min 8 (n - i0)} \<inter> {a + i1..<a + i1 + min 8 (n - i1)} = {}"
    and "distinct (block_origins n)"
proof -
  show "(\<Union>i0 \<in> set (block_origins n). {a + i0..<a + i0 + min 8 (n - i0)}) = {a..<a + n}"
  proof (intro set_eqI iffI)
    fix x assume "x \<in> (\<Union>i0 \<in> set (block_origins n). {a + i0..<a + i0 + min 8 (n - i0)})"
    then obtain i0 where "i0 \<in> set (block_origins n)" "a + i0 \<le> x" "x < a + i0 + min 8 (n - i0)"
      by auto
    then show "x \<in> {a..<a + n}" using block_origins_range(1) [of i0 n] by simp
  next
    fix x assume x: "x \<in> {a..<a + n}"
    let ?m = "(x - a) div 8"
    have "0 \<le> x - a" "x - a < n" using x by simp_all
    then have m: "0 \<le> ?m" "8 * ?m \<le> x - a" "x - a < 8 * ?m + 8" "8 * ?m < n" by presburger+
    then have "?m < (n + 7) div 8" by presburger
    then have "nat ?m < nat ((n + 7) div 8)" using m(1) by simp
    then have "8 * int (nat ?m) \<in> set (block_origins n)"
      unfolding block_origins_def set_map by (intro imageI) simp
    moreover have "x \<in> {a + 8 * int (nat ?m)..<a + 8 * int (nat ?m) + min 8 (n - 8 * int (nat ?m))}"
      using m x by simp
    ultimately show "x \<in> (\<Union>i0 \<in> set (block_origins n). {a + i0..<a + i0 + min 8 (n - i0)})"
      by blast
  qed
next
  assume "i0 \<in> set (block_origins n)" "i1 \<in> set (block_origins n)"
  then obtain m0 m1 :: nat where "i0 = 8 * int m0" "i1 = 8 * int m1"
    by (auto simp: block_origins_def)
  moreover assume "i0 \<noteq> i1"
  ultimately show "{a + i0..<a + i0 + min 8 (n - i0)} \<inter> {a + i1..<a + i1 + min 8 (n - i1)} = {}"
    by auto
next
  show "distinct (block_origins n)"
    by (simp add: block_origins_def distinct_map inj_on_def)
qed

lemma mk_blocks_cells:
  assumes "fused fl" "0 < ldc" "0 \<le> jj" "jj + actual_NB \<le> ldc"
  shows "snd (for_step 8 actual_MB (\<lambda>i0 C.
           snd (for_step 8 actual_NB (\<lambda>j0 C.
             mk_block fl actual_MB actual_NB actual_KB A_packed B_packed ldc ii jj i0 j0 C) 0 C)) 0 C)
       = cell_update ldc ({ii..<ii + actual_MB} \<times> {jj..<jj + actual_NB})
           (\<lambda>i j. dot_range fl A_packed B_packed actual_KB actual_NB (i - ii) (j - jj) 0 actual_KB) C"
proof -
  let ?D = "\<lambda>i j. dot_range fl A_packed B_packed actual_KB actual_NB (i - ii) (j - jj) 0 actual_KB"
  let ?I = "\<lambda>i0. {ii + i0..<ii + i0 + min 8 (actual_MB - i0)}"
  let ?J = "\<lambda>j0. {jj + j0..<jj + j0 + min 8 (actual_NB - j0)}"
  have row: "fold (\<lambda>j0 C. mk_block fl actual_MB actual_NB actual_KB A_packed B_packed ldc ii jj i0 j0 C)
               (block_origins actual_NB) C
      = cell_update ldc (?I i0 \<times> {jj..<jj + actual_NB}) ?D C" for i0 C
  proof -
    have "fold (\<lambda>j0 C. mk_block fl actual_MB actual_NB actual_KB A_packed B_packed ldc ii jj i0 j0 C)
               (block_origins actual_NB) C
        = fold (\<lambda>j0. cell_update ldc (?I i0 \<times> ?J j0) ?D) (block_origins actual_NB) C"
      by (intro fold_cong refl ext mk_block_cells assms block_origins_range)
    also have "\<dots> = cell_update ldc (\<Union>j0 \<in> set (block_origins actual_NB). ?I i0 \<times> ?J j0) ?D C"
    proof (rule fold_cell_update)
      show "distinct (block_origins actual_NB)" by (rule block_intervals(3))
      fix x y assume "x \<in> set (block_origins actual_NB)" "y \<in> set (block_origins actual_NB)" "x \<noteq> y"
      then have "?J x \<inter> ?J y = {}" by (rule block_intervals(2))
      then show "(?I i0 \<times> ?J x) \<inter> (?I i0 \<times> ?J y) = {}" by blast
    qed
    also have "(\<Union>j0 \<in> set (block_origins actual_NB). ?I i0 \<times> ?J j0)
        = ?I i0 \<times> (\<Union>j0 \<in> set (block_origins actual_NB). ?J j0)"
      by blast
    finally show ?thesis by (simp only: block_intervals(1))
  qed
  have "fold (\<lambda>i0 C. fold (\<lambda>j0 C.
            mk_block fl actual_MB actual_NB actual_KB A_packed B_packed ldc ii jj i0 j0 C)
               (block_origins actual_NB) C) (block_origins actual_MB) C
      = fold (\<lambda>i0. cell_update ldc (?I i0 \<times> {jj..<jj + actual_NB}) ?D) (block_origins actual_MB) C"
    by (intro fold_cong refl ext row)
  also have "\<dots> = cell_update ldc (\<Union>i0 \<in> set (block_origins actual_MB). ?I i0 \<times> {jj..<jj + actual_NB}) ?D C"
  proof (rule fold_cell_update)
    show "distinct (block_origins actual_MB)" by (rule block_intervals(3))
    fix x y assume "x \<in> set (block_origins actual_MB)" "y \<in> set (block_origins actual_MB)" "x \<noteq> y"
    then have "?I x \<inter> ?I y = {}" by (rule block_intervals(2))
    then show "(?I x \<times> {jj..<jj + actual_NB}) \<inter> (?I y \<times> {jj..<jj + actual_NB}) = {}" by blast
  qed
  also have "(\<Union>i0 \<in> set (block_origins actual_MB). ?I i0 \<times> {jj..<jj + actual_NB})
      = (\<Union>i0 \<in> set (block_origins actual_MB). ?I i0) \<times> {jj..<jj + actual_NB}"
    by blast
  finally show ?thesis by (simp only: for_step_8_origins block_intervals(1))
qed

lemma mk_chunk:
  assumes "fused fl" "0 < ldc" "0 \<le> jj" "jMax \<le> ldc"
  shows "snd (for_step 8 (iMax - ii) (\<lambda>i0 C.
           snd (for_step 8 (jMax - jj) (\<lambda>j0 C.
             mk_block fl (iMax - ii) (jMax - jj) (kMax - kk)
               (pack_A_panel_mk (iMax - ii) (kMax - kk) (ptr_add A (ii * lda + kk)) lda A_packed)
               (pack_B_panel_mk (kMax - kk) (jMax - jj) (ptr_add B (kk * ldb + jj)) ldb B_packed)
               ldc ii jj i0 j0 C) 0 C)) 0 C)
       = cell_update ldc ({ii..<iMax} \<times> {jj..<jMax}) (\<lambda>i j. dot_range fl A B lda ldb i j kk kMax) C"
proof -
  let ?Ap = "pack_A_panel (iMax - ii) (kMax - kk) (ptr_add A (ii * lda + kk)) lda A_packed"
  let ?Bp = "pack_A_panel (kMax - kk) (jMax - jj) (ptr_add B (kk * ldb + jj)) ldb B_packed"
  have width: "jj + (jMax - jj) \<le> ldc" using assms by simp
  have "cell_update ldc ({ii..<ii + (iMax - ii)} \<times> {jj..<jj + (jMax - jj)})
          (\<lambda>i j. dot_range fl ?Ap ?Bp (kMax - kk) (jMax - jj) (i - ii) (j - jj) 0 (kMax - kk)) C
      = cell_update ldc ({ii..<ii + (iMax - ii)} \<times> {jj..<jj + (jMax - jj)})
          (\<lambda>i j. dot_range fl A B lda ldb i j kk (kk + (kMax - kk))) C"
  proof (rule cell_update_cong)
    fix i j c assume "(i, j) \<in> {ii..<ii + (iMax - ii)} \<times> {jj..<jj + (jMax - jj)}"
    then have i: "0 \<le> i - ii" "i - ii < iMax - ii" and j: "0 \<le> j - jj" "j - jj < jMax - jj"
      by simp_all
    show "dot_range fl ?Ap ?Bp (kMax - kk) (jMax - jj) (i - ii) (j - jj) 0 (kMax - kk) c
        = dot_range fl A B lda ldb i j kk (kk + (kMax - kk)) c"
    proof (rule dot_range_shift)
      fix k :: int assume k: "0 \<le> k" "k < kMax - kk"
      show "?Ap ((i - ii) * (kMax - kk) + k) = A (i * lda + (kk + k))"
        unfolding pack_A_panel_copies [OF i k] by (simp add: ptr_add_def algebra_simps)
      show "?Bp (k * (jMax - jj) + (j - jj)) = B ((kk + k) * ldb + j)"
        unfolding pack_A_panel_copies [OF k j] by (simp add: ptr_add_def algebra_simps)
    qed
  qed
  then show ?thesis
    unfolding pack_A_panel_mk_eq pack_B_panel_mk_eq mk_blocks_cells [OF assms(1-3) width]
    by simp
qed

lemma mk_tile_cells:
  assumes "fused fl" "0 < kb" "0 \<le> K" "0 < ldc" "0 \<le> tile_jj nb nJ t" "tile_jMax N nb nJ t \<le> ldc"
    and range: "K + kb \<le> 2147483648"
  shows "\<exists>w'. mk_tile fl M N K A B lda ldb ldc mb nb kb nJ t w = Some (Completed w')
           \<and> snd (snd w') = cell_update ldc
               ({tile_ii mb nJ t ..< tile_iMax M mb nJ t} \<times> {tile_jj nb nJ t ..< tile_jMax N nb nJ t})
               (\<lambda>i j. dot_range fl A B lda ldb i j 0 K) (snd (snd w))"
proof -
  let ?ii = "tile_ii mb nJ t" and ?iMax = "tile_iMax M mb nJ t"
  let ?jj = "tile_jj nb nJ t" and ?jMax = "tile_jMax N nb nJ t"
  let ?W = "{?ii ..< ?iMax} \<times> {?jj ..< ?jMax}"
  let ?P = "\<lambda>k s. snd (snd s) = cell_update ldc ?W (\<lambda>i j. dot_range fl A B lda ldb i j 0 k) (snd (snd w))"
  let ?body = "\<lambda>kk (A_packed, B_packed, C).
           let kMax = min (kk + kb) K;
               actual_KB = kMax - kk;
               A_packed' = pack_A_panel_mk (?iMax - ?ii) actual_KB (ptr_add A (?ii * lda + kk)) lda A_packed;
               B_packed' = pack_B_panel_mk actual_KB (?jMax - ?jj) (ptr_add B (kk * ldb + ?jj)) ldb B_packed;
               C' = snd (for_step 8 (?iMax - ?ii) (\<lambda>i0 C.
                      snd (for_step 8 (?jMax - ?jj) (\<lambda>j0 C.
                        mk_block fl (?iMax - ?ii) (?jMax - ?jj) actual_KB A_packed' B_packed'
                          ldc ?ii ?jj i0 j0 C) 0 C)) 0 C)
           in (A_packed', B_packed', C')"
  have step: "?P (min (kk + kb) K) (?body kk s)" if "0 \<le> kk" "kk < K" "?P kk s" for kk s
  proof -
    obtain Ap Bp C1 where s: "s = (Ap, Bp, C1)" by (cases s)
    have "snd (snd (?body kk s))
        = cell_update ldc ?W (\<lambda>i j. dot_range fl A B lda ldb i j kk (min (kk + kb) K)) C1"
      unfolding s Let_def prod.case snd_conv by (rule mk_chunk [OF assms(1,4-6)])
    also have "\<dots> = cell_update ldc ?W (\<lambda>i j c. dot_range fl A B lda ldb i j kk (min (kk + kb) K)
                        (dot_range fl A B lda ldb i j 0 kk c)) (snd (snd w))"
      using that(3) unfolding s snd_conv by (simp only: cell_update_again)
    also have "\<dots> = cell_update ldc ?W (\<lambda>i j. dot_range fl A B lda ldb i j 0 (min (kk + kb) K)) (snd (snd w))"
      using that assms(2) by (intro cell_update_cong dot_range_append) auto
    finally show ?thesis .
  qed
  have init: "?P 0 w" by (rule cell_update_id [symmetric]) (simp add: dot_range_empty)
  have K: "max 0 K = K" using assms(3) by simp
  have "\<exists>w'. kk_loop K kb ?body 0 w = Some (Completed w') \<and> ?P (max 0 K) w'"
    using assms(2) range init step by (rule kk_loop_chunks [where P = ?P])
  then show ?thesis
    unfolding mk_tile_def Let_def K .
qed

lemma gemm_mk_avx2_exact:
  assumes "fused fl" "0 \<le> M" "0 \<le> N" "0 \<le> K" "0 < mb" "0 < nb" "0 < kb" "N \<le> ldc"
    and range: "K + kb \<le> 2147483648" "int32 (mb * kb)" "int32 (kb * nb)"
    and alloc: "posix_memalign (of_int (mb * kb) * 4) = Some A_packed"
               "posix_memalign (of_int (kb * nb) * 4) = Some B_packed"
  shows "gemm_mk_avx2 fl openmp posix_memalign M N K A B C lda ldb ldc \<lparr>MB = mb, NB = nb, KB = kb\<rparr>
       = Returned (gemm_naive fl M N K A B C lda ldb ldc)"
proof -
  have "\<exists>Ap Bp. tiles_loop (tile_count M mb * tile_count N nb)
       (mk_tile fl M N K A B lda ldb ldc mb nb kb (tile_count N nb)) (A_packed, B_packed, C)
      = Some (Completed (Ap, Bp, gemm_naive fl M N K A B C lda ldb ldc))"
  proof (cases "N = 0")
    case True
    then have "gemm_naive fl M N K A B C lda ldb ldc = C"
      by (intro gemm_naive_zero_extent) simp
    then show ?thesis
      using True assms(5,6) by (simp add: tile_count_zero tiles_loop_empty)
  next
    case False
    then have N: "0 < N" and ldc: "0 < ldc" using assms by simp_all
    have "\<exists>w'. tiles_loop (tile_count M mb * tile_count N nb)
         (mk_tile fl M N K A B lda ldb ldc mb nb kb (tile_count N nb)) (A_packed, B_packed, C)
           = Some (Completed w')
        \<and> snd (snd w') = gemm_naive fl M N K A B (snd (snd (A_packed, B_packed, C))) lda ldb ldc"
      using assms(2) N assms(5,6,8)
      by (rule tiles_loop_naive [where proj = "\<lambda>w. snd (snd w)"])
        (rule mk_tile_cells [OF assms(1,7,4) ldc _ _ range(1)])
    then show ?thesis by (metis prod.collapse snd_conv)
  qed
  then show ?thesis
    using assms(5,6) range(2,3) alloc
    by (auto simp: gemm_mk_avx2_def Let_def alloc_aligned_panel_def omp_parallel_def)
qed

text \<open>
  Exact integer arithmetic is such an arithmetic, so there the three tiled implementations
  and the naive loop give the same matrix, for all extents and all positive tile sizes.
\<close>

lemma fused_exact_int: "fused exact_int"
  by (simp add: fused_def exact_int_def)

lemma tiled_exact_int:
  assumes "0 \<le> M" "0 \<le> N" "0 \<le> K" "0 < mb" "0 < nb" "0 < kb" "N \<le> ldc"
    and "K + kb \<le> 2147483648" "int32 (mb * kb)" "int32 (kb * nb)"
  shows "gemm_blocked exact_int M N K A B C lda ldb ldc \<lparr>MB = mb, NB = nb, KB = kb\<rparr>
           = Returned (gemm_naive exact_int M N K A B C lda ldb ldc)"
    and "gemm_packed exact_int openmp (\<lambda>bytes. Some (\<lambda>p. 0)) M N K A B C lda ldb ldc
           \<lparr>MB = mb, NB = nb, KB = kb\<rparr>
           = Returned (gemm_naive exact_int M N K A B C lda ldb ldc)"
    and "gemm_mk_avx2 exact_int openmp (\<lambda>bytes. Some (\<lambda>p. 0)) M N K A B C lda ldb ldc
           \<lparr>MB = mb, NB = nb, KB = kb\<rparr>
           = Returned (gemm_naive exact_int M N K A B C lda ldb ldc)"
  using assms
  by (intro gemm_blocked_exact gemm_packed_exact gemm_mk_avx2_exact fused_exact_int; simp)+

section \<open>Errors of the dispatcher\<close>

text \<open>
  C9. The external backend always fails: \<open>gemm_openblas\<close>, and \<open>run_gemm\<close> with the name
  \<open>openblas\<close>, throw the backend-unavailable error for every input, with \<open>C\<close> as the caller
  passed it.
\<close>

theorem openblas_backend_unavailable:
  "gemm_openblas M N K A B C lda ldb ldc block_sizes = Thrown backend_unavailable C
   \<and> run_gemm fl openmp posix_memalign ''openblas'' M N K A B C lda ldb ldc block_sizes
       = Thrown backend_unavailable C"
  by (simp add: run_gemm_def gemm_openblas_def)

text \<open>
  C3. For every name outside \<open>naive\<close>, \<open>blocked\<close>, \<open>packed\<close>, \<open>mk_avx2\<close>, \<open>openblas\<close>,
  \<open>run_gemm\<close> throws the unknown-implementation error, whatever the other arguments are;
  no implementation has run and \<open>C\<close> is as the caller passed it.
\<close>

theorem unknown_implementation_rejected:
  assumes "impl \<notin> {''naive'', ''blocked'', ''packed'', ''mk_avx2'', ''openblas''}"
  shows "run_gemm fl openmp posix_memalign impl M N K A B C lda ldb ldc block_sizes
           = Thrown (unknown_implementation impl) C"
  using assms by (simp add: run_gemm_def)

theorem unknown_implementation_rejected_witness:
  "''bogus'' \<notin> {''naive'', ''blocked'', ''packed'', ''mk_avx2'', ''openblas''}
   \<and> run_gemm exact_int True (\<lambda>bytes. None) ''bogus'' 1 1 1 (\<lambda>p. 2) (\<lambda>p. 3) (\<lambda>p. 5) 1 1 1 Block_default
       = Thrown (Runtime_Error ''Unknown implementation: bogus'') (\<lambda>p. 5)"
proof -
  have h: "''bogus'' \<notin> {''naive'', ''blocked'', ''packed'', ''mk_avx2'', ''openblas''}" by simp
  show ?thesis
    using h unknown_implementation_rejected [OF h, of exact_int True "\<lambda>bytes. None" 1 1 1
      "\<lambda>p. 2" "\<lambda>p. 3" "\<lambda>p. 5" 1 1 1 Block_default]
    by (simp add: unknown_implementation_def)
qed

end
